theory Spec2Isabelle
  imports Complex_Main "HOL-Library.Sublist" "HOL-Library.Log_Nat"
begin

section \<open>JavaScript numbers\<close>

text \<open>
  The development embeds \<open>generate.js\<close>: the command line (\<open>parseArgs\<close>),
  \<open>preprocessSvg\<close>, \<open>generateGif\<close> and the call of \<open>generateGif\<close> in \<open>processFile\<close>.

  Conventions of the embedding.
  \<^item> A JavaScript string is a \<open>string\<close>, with characters of code below 256; a value that
    may be \<open>undefined\<close> or \<open>null\<close> is an \<open>option\<close>, with \<open>None\<close> for both.
  \<^item> A JavaScript number is a value of \<open>jsnum\<close>, an IEEE 754 double: not-a-number, the two
    infinities, negative zero, or \<open>Fin x\<close> for a rational \<open>x\<close>, with \<open>Fin 0\<close> for positive
    zero. The doubles among the rationals are those of the predicate \<open>dbl\<close>; \<open>isNumber\<close> says
    that a \<open>jsnum\<close> is one of the values a JavaScript program can hold. Every operation
    rounds its exact result to the nearest double, ties to even, as the language does.
  \<^item> An exception is a value: a function of the source that may throw returns a sum, with
    the exception on the left.
  \<^item> The libraries the source calls are not code of the repository. The selection of the
    \<open>path\<close> elements of a document (cheerio), the arc length of a path
    (svg-path-properties) and the rasteriser (sharp) are parameters of the model; the last
    two may throw. The GIF encoder is represented by the data handed to it.
\<close>

datatype jsnum = NaN | PosInf | NegInf | NegZero | Fin rat

subsection \<open>Rounding\<close>

text \<open>Rounding of a rational to the nearest integer, ties to the even one.\<close>

definition rne :: "rat \<Rightarrow> int" where
  "rne q = (let f = \<lfloor>q\<rfloor>; r = q - of_int f
            in if r < 1 / 2 then f else if 1 / 2 < r then f + 1
               else if even f then f else f + 1)"

text \<open>Every finite double is an integer multiple of 2 to the power -1074, the smallest positive
  double, and below 2 to the power 1024. For a non-negative \<open>X\<close>, counted in such units, \<open>snap X\<close> is
  the nearest integer with at most 53 significant bits: the \<open>j\<close> low bits of an integer of
  \<open>53 + j\<close> bits are rounded away.\<close>

definition snap :: "rat \<Rightarrow> int" where
  "snap X = (let j = nat (bitlen \<lfloor>X\<rfloor> - 53) in rne (X / 2 ^ j) * 2 ^ j)"

definition sub_exp :: nat where
  "sub_exp = 1074"

definition top_exp :: nat where
  "top_exp = 1024"

definition nearest :: "rat \<Rightarrow> rat" where
  "nearest x = of_int (snap (x * 2 ^ sub_exp)) / 2 ^ sub_exp"

text \<open>The double of an exact result \<open>x\<close> that is not zero by itself: the nearest double, an
  infinity when that is 2 to the power 1024 or more, and a zero of the sign of \<open>x\<close> when \<open>x\<close> is
  too small.\<close>

definition round64 :: "rat \<Rightarrow> jsnum" where
  "round64 x =
     (if x = 0 then Fin 0
      else if 0 < x then (let y = nearest x in if 2 ^ top_exp \<le> y then PosInf else Fin y)
      else (let y = nearest (- x) in
            if 2 ^ top_exp \<le> y then NegInf else if y = 0 then NegZero else Fin (- y)))"

text \<open>The rationals that are doubles.\<close>

definition grid :: "int \<Rightarrow> bool" where
  "grid n = (2 ^ nat (bitlen n - 53) dvd n)"

definition dbl :: "rat \<Rightarrow> bool" where
  "dbl x = (let X = \<bar>x\<bar> * 2 ^ sub_exp; n = \<lfloor>X\<rfloor> in of_int n = X \<and> grid n \<and> \<bar>x\<bar> < 2 ^ top_exp)"

fun isNumber :: "jsnum \<Rightarrow> bool" where
  "isNumber (Fin x) = dbl x"
| "isNumber _ = True"

subsection \<open>Operations\<close>

fun isFinite :: "jsnum \<Rightarrow> bool" where
  "isFinite NegZero = True"
| "isFinite (Fin x) = True"
| "isFinite _ = False"

text \<open>The sign bit.\<close>

fun isNeg :: "jsnum \<Rightarrow> bool" where
  "isNeg NegInf = True"
| "isNeg NegZero = True"
| "isNeg (Fin x) = (x < 0)"
| "isNeg _ = False"

text \<open>The value of a finite number, and the place of a number among the finite ones.\<close>

fun fv :: "jsnum \<Rightarrow> rat" where
  "fv (Fin x) = x"
| "fv _ = 0"

fun rank :: "jsnum \<Rightarrow> int" where
  "rank NegInf = - 1"
| "rank PosInf = 1"
| "rank _ = 0"

text \<open>The comparisons \<open><=\<close>, \<open><\<close>, \<open>>=\<close> and \<open>===\<close>: false when an operand is not a number;
  the two zeros are equal.\<close>

definition js_le :: "jsnum \<Rightarrow> jsnum \<Rightarrow> bool" where
  "js_le a b = (a \<noteq> NaN \<and> b \<noteq> NaN \<and> (rank a < rank b \<or> rank a = rank b \<and> fv a \<le> fv b))"

definition js_lt :: "jsnum \<Rightarrow> jsnum \<Rightarrow> bool" where
  "js_lt a b = (a \<noteq> NaN \<and> b \<noteq> NaN \<and> (rank a < rank b \<or> rank a = rank b \<and> fv a < fv b))"

definition js_ge :: "jsnum \<Rightarrow> jsnum \<Rightarrow> bool" where
  "js_ge a b = js_le b a"

definition js_eq :: "jsnum \<Rightarrow> jsnum \<Rightarrow> bool" where
  "js_eq a b = (js_le a b \<and> js_le b a)"

definition zero :: "bool \<Rightarrow> jsnum" where
  "zero negative = (if negative then NegZero else Fin 0)"

definition inf :: "bool \<Rightarrow> jsnum" where
  "inf negative = (if negative then NegInf else PosInf)"

fun js_neg :: "jsnum \<Rightarrow> jsnum" where
  "js_neg NaN = NaN"
| "js_neg PosInf = NegInf"
| "js_neg NegInf = PosInf"
| "js_neg NegZero = Fin 0"
| "js_neg (Fin x) = (if x = 0 then NegZero else Fin (- x))"

text \<open>\<open>a + b\<close>. An exact sum of zero is positive zero unless both operands are negative
  zeros; infinities of opposite signs add up to not-a-number.\<close>

definition js_add :: "jsnum \<Rightarrow> jsnum \<Rightarrow> jsnum" where
  "js_add a b =
     (if a = NaN \<or> b = NaN then NaN
      else if isFinite a \<and> isFinite b then
        (if fv a + fv b = 0 then zero (isNeg a \<and> isNeg b) else round64 (fv a + fv b))
      else if isFinite a then b
      else if isFinite b then a
      else if a = b then a else NaN)"

text \<open>\<open>a - b\<close>\<close>

definition js_sub :: "jsnum \<Rightarrow> jsnum \<Rightarrow> jsnum" where
  "js_sub a b = js_add a (js_neg b)"

text \<open>\<open>a * b\<close>. The sign of a zero or infinite product is the product of the signs; zero
  times infinity is not-a-number.\<close>

definition js_mul :: "jsnum \<Rightarrow> jsnum \<Rightarrow> jsnum" where
  "js_mul a b =
     (if a = NaN \<or> b = NaN then NaN
      else if isFinite a \<and> isFinite b then
        (if fv a * fv b = 0 then zero (isNeg a \<noteq> isNeg b) else round64 (fv a * fv b))
      else if (isFinite a \<and> fv a = 0) \<or> (isFinite b \<and> fv b = 0) then NaN
      else inf (isNeg a \<noteq> isNeg b))"

text \<open>\<open>a / b\<close>. A division by zero gives an infinity, or not-a-number for \<open>0 / 0\<close>.\<close>

definition js_div :: "jsnum \<Rightarrow> jsnum \<Rightarrow> jsnum" where
  "js_div a b =
     (if a = NaN \<or> b = NaN then NaN
      else if isFinite a \<and> isFinite b then
        (if fv b = 0 then (if fv a = 0 then NaN else inf (isNeg a \<noteq> isNeg b))
         else if fv a = 0 then zero (isNeg a \<noteq> isNeg b)
         else round64 (fv a / fv b))
      else if isFinite a then zero (isNeg a \<noteq> isNeg b)
      else if isFinite b then inf (isNeg a \<noteq> isNeg b)
      else NaN)"

text \<open>\<open>Math.ceil\<close>\<close>

fun js_ceil :: "jsnum \<Rightarrow> jsnum" where
  "js_ceil (Fin x) = (if x < 0 \<and> \<lceil>x\<rceil> = 0 then NegZero else Fin (of_int \<lceil>x\<rceil>))"
| "js_ceil a = a"



text \<open>A number that is not negative: zero or more, infinity included.\<close>

definition nonNegative :: "jsnum \<Rightarrow> bool" where
  "nonNegative a = (isNumber a \<and> js_le (Fin 0) a)"

section \<open>Data model of \<open>generate.js\<close>\<close>

subsection \<open>Strokes\<close>

text \<open>A \<open>path\<close> element of the parsed document, with its attributes \<open>d\<close> and \<open>id\<close> as
  \<open>$(el).attr\<close> returns them.\<close>

record path_el =
  attr_d :: "string option"
  attr_id :: "string option"

text \<open>The objects \<open>{d, id}\<close> pushed to \<open>paths\<close>, and their extension
  \<open>{...p, length}\<close> in \<open>pathProps\<close>.\<close>

record path =
  path_d :: string
  path_id :: "string option"

record pathProp = path +
  path_length :: jsnum

text \<open>The loop \<open>$('path').each\<close>: an element is kept when its \<open>d\<close> is truthy, that is,
  defined and not the empty string.\<close>

fun extractPaths :: "path_el list \<Rightarrow> path list" where
  "extractPaths [] = []"
| "extractPaths (el # els) =
     (case attr_d el of
        None \<Rightarrow> extractPaths els
      | Some dv \<Rightarrow>
          if dv \<noteq> [] then \<lparr>path_d = dv, path_id = attr_id el\<rparr> # extractPaths els
          else extractPaths els)"

datatype exn = Exn string

text \<open>\<open>paths.map(p => ...)\<close>: the paths are measured in order, and the first one that
  svg-path-properties refuses ends the map with its exception.\<close>

fun makePathProps :: "(string \<Rightarrow> exn + jsnum) \<Rightarrow> path list \<Rightarrow> exn + pathProp list" where
  "makePathProps getTotalLength [] = Inr []"
| "makePathProps getTotalLength (p # ps) =
     (case getTotalLength (path_d p) of
        Inl e \<Rightarrow> Inl e
      | Inr n \<Rightarrow>
          (case makePathProps getTotalLength ps of
             Inl e \<Rightarrow> Inl e
           | Inr pps \<Rightarrow> Inr (\<lparr>path_d = path_d p, path_id = path_id p, path_length = n\<rparr> # pps)))"

text \<open>\<open>pathProps.reduce((sum, p) => sum + p.length, 0)\<close>\<close>

definition totalLengthOf :: "pathProp list \<Rightarrow> jsnum" where
  "totalLengthOf pathProps = foldl (\<lambda>sum p. js_add sum (path_length p)) (Fin 0) pathProps"

subsection \<open>Options and timing\<close>

record options =
  opt_duration :: jsnum
  opt_fps :: jsnum
  opt_timing :: string
  opt_bg :: "string option"
  opt_color :: "string option"
  opt_guide :: "string option"

definition timePerStroke :: jsnum where
  "timePerStroke = Fin 200"

definition baseTime :: jsnum where
  "baseTime = Fin 500"

text \<open>\<open>baseTime + (pathProps.length * timePerStroke)\<close> for the timing \<open>'relative'\<close>, and
  \<open>options.duration\<close> for any other.\<close>

definition animationDuration :: "options \<Rightarrow> pathProp list \<Rightarrow> jsnum" where
  "animationDuration opts pathProps =
     (if opt_timing opts = ''relative''
      then js_add baseTime (js_mul (Fin (of_nat (length pathProps))) timePerStroke)
      else opt_duration opts)"

text \<open>\<open>Math.ceil((animationDuration / 1000) * fps)\<close>\<close>

definition totalFramesOf :: "jsnum \<Rightarrow> jsnum \<Rightarrow> jsnum" where
  "totalFramesOf duration fps = js_ceil (js_mul (js_div duration (Fin 1000)) fps)"

text \<open>The options \<open>processFile\<close> passes in default mode.\<close>

definition defaultModeOptions :: options where
  "defaultModeOptions =
     \<lparr>opt_duration = Fin 2000, opt_fps = Fin 20, opt_timing = ''fixed'',
      opt_bg = Some ''white'', opt_color = Some ''#000000'', opt_guide = Some ''#dddddd''\<rparr>"

subsection \<open>Frames\<close>

text \<open>An element of the group of active strokes: \<open>Path d\<close> is
  \<open><path d="d"/>\<close>, and \<open>DashPath d a b\<close> is the same element with
  \<open>stroke-dasharray="a b"\<close> and \<open>stroke-dashoffset="0"\<close>.\<close>

datatype svg_path = Path string | DashPath string jsnum jsnum

text \<open>The inner loop over \<open>pathProps\<close>, with \<open>drawnLength\<close> as an argument. Both
  \<open>break\<close>s end the list.\<close>

fun activeStrokes :: "jsnum \<Rightarrow> jsnum \<Rightarrow> pathProp list \<Rightarrow> svg_path list" where
  "activeStrokes currentTotalProgress drawnLength [] = []"
| "activeStrokes currentTotalProgress drawnLength (p # ps) =
     (if js_le (js_add drawnLength (path_length p)) currentTotalProgress
      then Path (path_d p) #
           activeStrokes currentTotalProgress (js_add drawnLength (path_length p)) ps
      else if js_lt drawnLength currentTotalProgress
      then [DashPath (path_d p) (js_sub currentTotalProgress drawnLength) (path_length p)]
      else [])"

text \<open>\<open>(frame / totalFrames) * totalLength\<close>, replaced by \<open>totalLength\<close> when
  \<open>frame >= totalFrames\<close>. The source divides first and overwrites after; the quotient has
  no effect of its own, so it is not computed here when it is overwritten.\<close>

definition currentTotalProgressAt :: "jsnum \<Rightarrow> jsnum \<Rightarrow> jsnum \<Rightarrow> jsnum" where
  "currentTotalProgressAt frame totalFrames totalLength =
     (if js_ge frame totalFrames then totalLength
      else js_mul (js_div frame totalFrames) totalLength)"

text \<open>\<open>a || b\<close> on a string that may be undefined.\<close>

definition js_or :: "string option \<Rightarrow> string \<Rightarrow> string" where
  "js_or a b = (case a of None \<Rightarrow> b | Some s \<Rightarrow> if s = [] then b else s)"

text \<open>The SVG of one frame: the guide group (its colour and the paths), when shown, and
  the group of active strokes with its colour.\<close>

record frame_svg =
  svg_guide :: "(string \<times> string list) option"
  svg_stroke :: string
  svg_active :: "svg_path list"

definition frameSvg ::
  "path list \<Rightarrow> pathProp list \<Rightarrow> jsnum \<Rightarrow> jsnum \<Rightarrow> options \<Rightarrow> jsnum \<Rightarrow> frame_svg" where
  "frameSvg paths pathProps totalLength totalFrames opts frame =
     (let strokeColor = js_or (opt_color opts) ''#000000'';
          guideColor = js_or (opt_guide opts) ''#dddddd'';
          showGuide = (opt_guide opts \<noteq> Some ''none'');
          currentTotalProgress = currentTotalProgressAt frame totalFrames totalLength
      in \<lparr>svg_guide = (if showGuide then Some (guideColor, map path_d paths) else None),
          svg_stroke = strokeColor,
          svg_active = activeStrokes currentTotalProgress (Fin 0) pathProps\<rparr>)"

text \<open>What is handed to sharp for one frame: the SVG, the size to resize to, and the
  background to flatten over when \<open>options.bg\<close> is not \<open>'transparent'\<close>.\<close>

record frame_request =
  fr_svg :: frame_svg
  fr_width :: jsnum
  fr_height :: jsnum
  fr_flatten :: "string option option"

definition frameRequest ::
  "path list \<Rightarrow> pathProp list \<Rightarrow> jsnum \<Rightarrow> jsnum \<Rightarrow> jsnum \<Rightarrow> jsnum \<Rightarrow> options \<Rightarrow> jsnum \<Rightarrow> frame_request"
  where
  "frameRequest paths pathProps totalLength totalFrames width height opts frame =
     \<lparr>fr_svg = frameSvg paths pathProps totalLength totalFrames opts frame,
      fr_width = width, fr_height = height,
      fr_flatten = (if opt_bg opts \<noteq> Some ''transparent'' then Some (opt_bg opts) else None)\<rparr>"

text \<open>The loop \<open>for (let frame = 0; frame < totalFrames + endPauseFrames; frame++)\<close>, from
  any frame, with the buffers added to the encoder so far. An exception of the rasteriser
  leaves the loop, with the buffers added before it. The loop need not end: the result
  \<open>None\<close> stands for a loop that runs forever, as it does when the bound is infinite.\<close>

partial_function (option) frameLoop ::
  "(jsnum \<Rightarrow> exn + 'b) \<Rightarrow> jsnum \<Rightarrow> jsnum \<Rightarrow> 'b list \<Rightarrow> (exn \<times> 'b list + 'b list) option" where
  "frameLoop render bound frame added =
     (if js_lt frame bound
      then (case render frame of
              Inl e \<Rightarrow> Some (Inl (e, added))
            | Inr buffer \<Rightarrow> frameLoop render bound (js_add frame (Fin 1)) (added @ [buffer]))
      else Some (Inr added))"

subsection \<open>The encoder and \<open>generateGif\<close>\<close>

text \<open>The output: the file the encoder's stream is piped to, the encoder's settings and
  the frames added, in order. \<open>gif_delay\<close> is \<open>1000 / fps\<close>.\<close>

record 'b gif =
  gif_path :: string
  gif_width :: jsnum
  gif_height :: jsnum
  gif_repeat :: jsnum
  gif_delay :: jsnum
  gif_quality :: jsnum
  gif_frames :: "'b list"

text \<open>How a call of \<open>generateGif\<close> ends. \<open>NoOutput\<close> is the \<open>return\<close> taken when no path was
  extracted: it happens before the encoder is created, so nothing is written. \<open>Raised e None\<close>
  is an exception of svg-path-properties, raised before the encoder is created.
  \<open>Raised e (Some g)\<close> is an exception of the rasteriser, raised in the frame loop: the
  output stream is open and the frames of \<open>g\<close> are added, but \<open>encoder.finish()\<close> is not
  reached. \<open>Finished g\<close> is the output after \<open>encoder.finish()\<close>.\<close>

datatype 'b outcome =
    NoOutput
  | Raised exn "'b gif option"
  | Finished "'b gif"

definition generateGif ::
  "(string \<Rightarrow> path_el list) \<Rightarrow> (string \<Rightarrow> exn + jsnum) \<Rightarrow> (frame_request \<Rightarrow> exn + 'b) \<Rightarrow>
   string \<Rightarrow> string \<Rightarrow> jsnum \<Rightarrow> jsnum \<Rightarrow> options \<Rightarrow> 'b outcome option" where
  "generateGif selectPaths getTotalLength sharp svgContent outputPath width height opts =
     (let paths = extractPaths (selectPaths svgContent) in
      if length paths = 0 then Some NoOutput
      else
        case makePathProps getTotalLength paths of
          Inl e \<Rightarrow> Some (Raised e None)
        | Inr pathProps \<Rightarrow>
            let totalLength = totalLengthOf pathProps;
                fps = opt_fps opts;
                totalFrames = totalFramesOf (animationDuration opts pathProps) fps;
                encoder = \<lparr>gif_path = outputPath, gif_width = width, gif_height = height,
                           gif_repeat = Fin 0, gif_delay = js_div (Fin 1000) fps,
                           gif_quality = Fin 10, gif_frames = []\<rparr>;
                endPauseFrames = fps
            in map_option
                 (\<lambda>r. case r of
                        Inl (e, added) \<Rightarrow> Raised e (Some (encoder\<lparr>gif_frames := added\<rparr>))
                      | Inr added \<Rightarrow> Finished (encoder\<lparr>gif_frames := added\<rparr>))
                 (frameLoop
                    (\<lambda>frame. sharp (frameRequest paths pathProps totalLength totalFrames
                                       width height opts frame))
                    (js_add totalFrames endPauseFrames) (Fin 0) []))"

subsection \<open>\<open>preprocessSvg\<close>\<close>

text \<open>The string methods \<open>preprocessSvg\<close> calls. They only compare code units, so they
  are written for lists over any type.

  \<open>indexOf\<close> is the position of the first occurrence, or \<open>-1\<close>; \<open>includesStr\<close> is the
  method \<open>includes\<close>.\<close>

fun indexOf :: "'a list \<Rightarrow> 'a list \<Rightarrow> int" where
  "indexOf [] pat = (if pat = [] then 0 else - 1)"
| "indexOf (c # cs) pat =
     (if prefix pat (c # cs) then 0
      else (let i = indexOf cs pat in if i < 0 then - 1 else i + 1))"

fun includesStr :: "'a list \<Rightarrow> 'a list \<Rightarrow> bool" where
  "includesStr [] pat = (pat = [])"
| "includesStr (c # cs) pat = (prefix pat (c # cs) \<or> includesStr cs pat)"

text \<open>\<open>substring(start)\<close>: a negative start counts as zero, one past the end as the
  length.\<close>

definition substring :: "'a list \<Rightarrow> int \<Rightarrow> 'a list" where
  "substring s start = drop (nat start) s"

text \<open>\<open>replace(pat, rep)\<close> with a string pattern replaces the first occurrence only. The
  replacement is inserted as it is when it holds no \<open>$\<close>, which is so for the one
  replacement of the source.\<close>

fun replace :: "'a list \<Rightarrow> 'a list \<Rightarrow> 'a list \<Rightarrow> 'a list" where
  "replace [] pat rep = (if pat = [] then rep else [])"
| "replace (c # cs) pat rep =
     (if prefix pat (c # cs) then rep @ drop (length pat) (c # cs)
      else c # replace cs pat rep)"

definition preprocessSvg :: "string \<Rightarrow> string" where
  \<open>preprocessSvg content =
     (let svgStart = indexOf content ''<svg'';
          content1 = (if svgStart > 0 then substring content svgStart else content)
      in if \<not> includesStr content1 ''xmlns:kvg''
         then replace content1 ''<svg'' ''<svg xmlns:kvg="http://kanjivg.tagaini.net"''
         else content1)\<close>

subsection \<open>The command line\<close>

text \<open>\<open>parseInt\<close> of a string, without a radix: leading white space is skipped, a sign is
  read, the prefix \<open>0x\<close> or \<open>0X\<close> selects the radix 16, and the longest run of digits of the
  radix is the integer, rounded to a double; no digit gives not-a-number. \<open>digitValue\<close> is
  the value of a digit, and 36 for a character that is no digit of any radix.\<close>

definition isWhiteSpace :: "char \<Rightarrow> bool" where
  "isWhiteSpace c = (of_char c \<in> {9, 10, 11, 12, 13, 32, 160 :: nat})"

definition digitValue :: "char \<Rightarrow> nat" where
  "digitValue c =
     (let n = of_char c :: nat in
      if 48 \<le> n \<and> n \<le> 57 then n - 48
      else if 97 \<le> n \<and> n \<le> 122 then n - 87
      else if 65 \<le> n \<and> n \<le> 90 then n - 55
      else 36)"

definition parseInt :: "string \<Rightarrow> jsnum" where
  "parseInt s =
     (let s1 = dropWhile isWhiteSpace s;
          negative = (take 1 s1 = ''-'');
          s2 = (if take 1 s1 = ''+'' \<or> take 1 s1 = ''-'' then drop 1 s1 else s1);
          hex = (take 2 s2 = ''0x'' \<or> take 2 s2 = ''0X'');
          s3 = (if hex then drop 2 s2 else s2);
          R = (if hex then 16 else 10);
          Z = takeWhile (\<lambda>c. digitValue c < R) s3;
          mathInt = foldl (\<lambda>v c. v * R + digitValue c) 0 Z
      in if Z = [] then NaN
         else if mathInt = 0 then zero negative
         else if negative then round64 (- rat_of_nat mathInt)
         else round64 (rat_of_nat mathInt))"











subsection \<open>The call of \<open>generateGif\<close> in \<open>processFile\<close>\<close>





subsection \<open>Reading a frame\<close>

text \<open>What a frame shows of each stroke. An element without dash array shows the whole
  stroke; one with the dash array \<open>a b\<close> on a stroke of length \<open>b\<close> shows the fraction
  \<open>a / b\<close> of it, from the start of the path. \<open>revealedAt els k\<close> is the fraction shown of
  stroke \<open>k\<close>, zero when the stroke has no element.\<close>

fun isPath :: "svg_path \<Rightarrow> bool" where
  "isPath (Path d) = True"
| "isPath (DashPath d a b) = False"

fun revealed :: "svg_path \<Rightarrow> rat" where
  "revealed (Path d) = 1"
| "revealed (DashPath d a b) = fv a / fv b"

definition revealedAt :: "svg_path list \<Rightarrow> nat \<Rightarrow> rat" where
  "revealedAt els k = (if k < length els then revealed (els ! k) else 0)"

definition fullyDrawn :: "svg_path list \<Rightarrow> nat \<Rightarrow> bool" where
  "fullyDrawn els k = (k < length els \<and> isPath (els ! k))"

subsection \<open>Example inputs\<close>

text \<open>Three strokes of lengths 10, 20 and 5, the document they are extracted from (with one
  \<open>path\<close> element without \<open>d\<close>, which is skipped) and their arc lengths; a document without
  any stroke; the first of the three strokes alone; three strokes of lengths 3.999999999999999, 12 and 15.999999999999996, which
  are the doubles \<open>4503599627370495 / 1125899906842624\<close>, 12 and \<open>4503599627370495 / 281474976710656\<close>. All are horizontal
  lines, which svg-path-properties measures by their end point.\<close>

definition strokes3 :: "pathProp list" where
  "strokes3 =
     [\<lparr>path_d = ''M0,0 L10,0'', path_id = Some ''s1'', path_length = Fin 10\<rparr>,
      \<lparr>path_d = ''M0,0 L20,0'', path_id = Some ''s2'', path_length = Fin 20\<rparr>,
      \<lparr>path_d = ''M0,0 L5,0'', path_id = None, path_length = Fin 5\<rparr>]"


definition tieStrokes :: "pathProp list" where
  "tieStrokes =
     [\<lparr>path_d = ''M0,0 L3.999999999999999,0'', path_id = None,
       path_length = Fin (4503599627370495 / 1125899906842624)\<rparr>,
      \<lparr>path_d = ''M0,0 L12,0'', path_id = None, path_length = Fin 12\<rparr>,
      \<lparr>path_d = ''M0,0 L15.999999999999996,0'', path_id = None,
       path_length = Fin (4503599627370495 / 281474976710656)\<rparr>]"

definition exampleDoc :: "string \<Rightarrow> path_el list" where
  "exampleDoc svgContent =
     [\<lparr>attr_d = Some ''M0,0 L10,0'', attr_id = Some ''s1''\<rparr>,
      \<lparr>attr_d = Some ''M0,0 L20,0'', attr_id = Some ''s2''\<rparr>,
      \<lparr>attr_d = None, attr_id = Some ''empty''\<rparr>,
      \<lparr>attr_d = Some ''M0,0 L5,0'', attr_id = None\<rparr>]"

text \<open>The arc lengths of the path data of \<open>exampleDoc\<close>; no other path data is measured in
  the examples.\<close>

definition exampleMeasure :: "string \<Rightarrow> exn + jsnum" where
  "exampleMeasure dv =
     (if dv = ''M0,0 L10,0'' then Inr (Fin 10)
      else if dv = ''M0,0 L20,0'' then Inr (Fin 20)
      else if dv = ''M0,0 L5,0'' then Inr (Fin 5)
      else Inl (Exn ''not a path of the example''))"

text \<open>A rasteriser that, like sharp, refuses a width or a height that is not a positive
  integer, and whose buffer is the request itself.\<close>

fun positiveInteger :: "jsnum \<Rightarrow> bool" where
  "positiveInteger (Fin x) = (0 < x \<and> of_int \<lfloor>x\<rfloor> = x)"
| "positiveInteger a = False"

definition exampleSharp :: "frame_request \<Rightarrow> exn + frame_request" where
  "exampleSharp request =
     (if positiveInteger (fr_width request) \<and> positiveInteger (fr_height request)
      then Inr request
      else Inl (Exn ''Expected positive integer''))"

definition emptyDoc :: "string \<Rightarrow> path_el list" where
  "emptyDoc svgContent =
     [\<lparr>attr_d = None, attr_id = Some ''a''\<rparr>, \<lparr>attr_d = Some [], attr_id = None\<rparr>]"

text \<open>Options: relative timing; 2200 milliseconds at 25 frames per second. The
  configuration that \<open>--format gif --fps 0 --timing bogus\<close> yields.\<close>

definition relativeOptions :: options where
  "relativeOptions = defaultModeOptions\<lparr>opt_timing := ''relative''\<rparr>"

definition fastOptions :: options where
  "fastOptions = defaultModeOptions\<lparr>opt_duration := Fin 2200, opt_fps := Fin 25\<rparr>"


definition exampleSvg :: string where
  \<open>exampleSvg = ''<!-- c --><svg a="1"/>''\<close>

section \<open>Properties\<close>

subsection \<open>Rounding to the nearest double\<close>

lemma rne_mono: "q \<le> q' \<Longrightarrow> rne q \<le> rne q'"
proof -
  assume le: "q \<le> q'"
  then have f: "\<lfloor>q\<rfloor> \<le> \<lfloor>q'\<rfloor>" by (rule floor_mono)
  show ?thesis
  proof (cases "\<lfloor>q\<rfloor> = \<lfloor>q'\<rfloor>")
    case True
    with le have "q - of_int \<lfloor>q\<rfloor> \<le> q' - of_int \<lfloor>q'\<rfloor>" by simp
    with True show ?thesis by (auto simp: rne_def Let_def)
  next
    case False
    with f have "\<lfloor>q\<rfloor> + 1 \<le> \<lfloor>q'\<rfloor>" by simp
    moreover have "rne q \<le> \<lfloor>q\<rfloor> + 1" by (auto simp: rne_def Let_def)
    moreover have "\<lfloor>q'\<rfloor> \<le> rne q'" by (auto simp: rne_def Let_def)
    ultimately show ?thesis by linarith
  qed
qed

lemma rne_of_int [simp]: "rne (of_int k) = k"
  by (simp add: rne_def)

lemma rne_le: "q \<le> of_int k \<Longrightarrow> rne q \<le> k"
  using rne_mono [of q "of_int k"] by simp

lemma rne_ge: "of_int k \<le> q \<Longrightarrow> k \<le> rne q"
  using rne_mono [of "of_int k" q] by simp

lemma rne_nonneg: "0 \<le> q \<Longrightarrow> 0 \<le> rne q"
  using rne_ge [of 0 q] by simp

lemma bitlen_upper: "bitlen a - 53 \<le> int j \<Longrightarrow> a < 2 ^ (53 + j)"
proof -
  assume "bitlen a - 53 \<le> int j"
  then have "bitlen a \<le> int (53 + j)" by simp
  then have "a < 2 ^ nat (int (53 + j))" unfolding bitlen_le_iff_power by blast
  then show ?thesis by (simp only: nat_int)
qed

lemma bitlen_lower: "53 + int j \<le> bitlen a \<Longrightarrow> 2 ^ (52 + j) \<le> a"
proof -
  assume "53 + int j \<le> bitlen a"
  then have "int (53 + j) \<le> bitlen a" by simp
  then have "int (53 + j) \<le> 0 \<or> 2 ^ (nat (int (53 + j)) - 1) \<le> a"
    unfolding bitlen_ge_iff_power .
  then have "2 ^ (nat (int (53 + j)) - 1) \<le> a" by auto
  moreover have "nat (int (53 + j)) - 1 = 52 + j" by simp
  ultimately show ?thesis by simp
qed

lemma floor_lt_pow: "\<lfloor>X\<rfloor> < 2 ^ (53 + nat (bitlen \<lfloor>X\<rfloor> - 53))"
  by (rule bitlen_upper) simp

lemma lt_pow: "(X::rat) < 2 ^ (53 + nat (bitlen \<lfloor>X\<rfloor> - 53))"
proof -
  define j where "j = nat (bitlen \<lfloor>X\<rfloor> - 53)"
  let ?P = "(2::int) ^ (53 + j)"
  from floor_lt_pow [of X] have "\<lfloor>X\<rfloor> + 1 \<le> ?P" by (simp add: j_def)
  then have "rat_of_int (\<lfloor>X\<rfloor> + 1) \<le> of_int ?P" by (simp only: of_int_le_iff)
  moreover have "X < of_int (\<lfloor>X\<rfloor> + 1)" by linarith
  ultimately have "X < of_int ?P" by linarith
  then show ?thesis by (simp add: j_def)
qed

lemma snap_le_pow: "snap X \<le> 2 ^ (53 + nat (bitlen \<lfloor>X\<rfloor> - 53))"
proof -
  define j where "j = nat (bitlen \<lfloor>X\<rfloor> - 53)"
  have "X < 2 ^ (53 + j)" unfolding j_def by (rule lt_pow)
  then have "X / 2 ^ j \<le> 2 ^ (53 + j) / 2 ^ j"
    by (simp add: divide_right_mono less_imp_le)
  also have "\<dots> = rat_of_int (2 ^ 53)" by (simp add: power_add)
  finally have "rne (X / 2 ^ j) \<le> 2 ^ 53" by (rule rne_le)
  then have "rne (X / 2 ^ j) * 2 ^ j \<le> 2 ^ 53 * 2 ^ j"
    by (simp add: mult_right_mono)
  then have "rne (X / 2 ^ j) * 2 ^ j \<le> 2 ^ (53 + j)" by (simp add: power_add)
  then show ?thesis unfolding j_def by (simp add: snap_def Let_def)
qed

lemma snap_nonneg: "0 \<le> X \<Longrightarrow> 0 \<le> snap X"
  unfolding snap_def Let_def by (intro mult_nonneg_nonneg rne_nonneg) simp_all

lemma snap_ge_pow:
  assumes j: "0 < nat (bitlen \<lfloor>X\<rfloor> - 53)"
  shows "2 ^ (52 + nat (bitlen \<lfloor>X\<rfloor> - 53)) \<le> snap X"
proof -
  define j where "j = nat (bitlen \<lfloor>X\<rfloor> - 53)"
  from j have "53 + int j \<le> bitlen \<lfloor>X\<rfloor>" by (simp add: j_def)
  then have "(2::int) ^ (52 + j) \<le> \<lfloor>X\<rfloor>" by (rule bitlen_lower)
  then have "rat_of_int (2 ^ (52 + j)) \<le> X" by (simp only: le_floor_iff)
  then have "rat_of_int (2 ^ (52 + j)) / 2 ^ j \<le> X / 2 ^ j"
    by (simp add: divide_right_mono)
  moreover have "rat_of_int (2 ^ (52 + j)) / 2 ^ j = of_int (2 ^ 52)" by (simp add: power_add)
  ultimately have "of_int (2 ^ 52) \<le> X / 2 ^ j" by simp
  then have "2 ^ 52 \<le> rne (X / 2 ^ j)" by (rule rne_ge)
  then have "2 ^ 52 * 2 ^ j \<le> rne (X / 2 ^ j) * 2 ^ j"
    by (simp add: mult_right_mono)
  then have "2 ^ (52 + j) \<le> rne (X / 2 ^ j) * 2 ^ j" by (simp add: power_add)
  then show ?thesis unfolding j_def by (simp add: snap_def Let_def)
qed

lemma snap_mono:
  assumes XY: "X \<le> Y"
  shows "snap X \<le> snap Y"
proof -
  define jX where "jX = nat (bitlen \<lfloor>X\<rfloor> - 53)"
  define jY where "jY = nat (bitlen \<lfloor>Y\<rfloor> - 53)"
  have "\<lfloor>X\<rfloor> \<le> \<lfloor>Y\<rfloor>" using XY by (rule floor_mono)
  then have "bitlen \<lfloor>X\<rfloor> \<le> bitlen \<lfloor>Y\<rfloor>"
    by (simp add: bitlen_def floorlog_mono nat_mono)
  then have j: "jX \<le> jY" unfolding jX_def jY_def by (intro nat_mono) simp
  show ?thesis
  proof (cases "jX = jY")
    case True
    have "X / 2 ^ jY \<le> Y / 2 ^ jY" using XY by (simp add: divide_right_mono)
    then have "rne (X / 2 ^ jY) \<le> rne (Y / 2 ^ jY)" by (rule rne_mono)
    then have "rne (X / 2 ^ jY) * 2 ^ jY \<le> rne (Y / 2 ^ jY) * 2 ^ jY"
      by (simp add: mult_right_mono)
    with True show ?thesis unfolding jX_def jY_def by (simp add: snap_def Let_def)
  next
    case False
    with j have lt: "jX < jY" by simp
    then have "0 < nat (bitlen \<lfloor>Y\<rfloor> - 53)" unfolding jY_def by simp
    from snap_ge_pow [OF this] have "2 ^ (52 + jY) \<le> snap Y" unfolding jY_def .
    moreover have "snap X \<le> 2 ^ (53 + jX)" unfolding jX_def by (rule snap_le_pow)
    moreover have "(2::int) ^ (53 + jX) \<le> 2 ^ (52 + jY)"
      using lt by (intro power_increasing) simp_all
    ultimately show ?thesis by linarith
  qed
qed

lemma nearest_mono: "x \<le> y \<Longrightarrow> nearest x \<le> nearest y"
  unfolding nearest_def
  by (intro divide_right_mono iffD2 [OF of_int_le_iff] snap_mono mult_right_mono) simp_all

lemma nearest_nonneg: "0 \<le> x \<Longrightarrow> 0 \<le> nearest x"
  unfolding nearest_def by (simp add: snap_nonneg)

lemma snap_grid: "grid n \<Longrightarrow> snap (of_int n) = n"
proof -
  assume g: "grid n"
  define j where "j = nat (bitlen n - 53)"
  from g obtain k where k: "n = 2 ^ j * k" by (auto simp: grid_def dvd_def j_def)
  have "rat_of_int (2 ^ j * k) / 2 ^ j = of_int k" by simp
  then have "rne (rat_of_int n / 2 ^ j) = k" unfolding k [symmetric] by simp
  then have "rne (rat_of_int n / 2 ^ j) * 2 ^ j = n" using k by simp
  then show ?thesis unfolding j_def by (simp add: snap_def Let_def)
qed

lemma grid_snap: "0 \<le> X \<Longrightarrow> grid (snap X)"
proof -
  assume X: "0 \<le> X"
  define j where "j = nat (bitlen \<lfloor>X\<rfloor> - 53)"
  define k where "k = rne (X / 2 ^ j)"
  have s: "snap X = k * 2 ^ j" by (simp add: snap_def Let_def j_def k_def)
  have "snap X \<le> 2 ^ (53 + j)" unfolding j_def by (rule snap_le_pow)
  then have kle: "k \<le> 2 ^ 53" unfolding s by (simp add: power_add)
  show ?thesis
  proof (cases "k = 2 ^ 53")
    case True
    then have e: "snap X = 2 ^ (53 + j)" unfolding s by (simp add: power_add)
    have "bitlen (1 * (2::int) ^ (53 + j)) = bitlen 1 + int (53 + j)"
      by (rule bitlen_pow2) simp
    moreover have "bitlen 1 = 1" by (subst compute_bitlen) simp
    ultimately have "bitlen ((2::int) ^ (53 + j)) - 53 = int (j + 1)" by simp
    then have n: "nat (bitlen ((2::int) ^ (53 + j)) - 53) = j + 1" by (simp only: nat_int)
    have "(2::int) ^ (j + 1) dvd 2 ^ (53 + j)"
      by (rule le_imp_power_dvd) simp
    then show ?thesis
      unfolding e grid_def n .
  next
    case False
    with kle have "k < 2 ^ 53" by simp
    then have "k * 2 ^ j < 2 ^ 53 * 2 ^ j" by simp
    then have "snap X < 2 ^ (53 + j)" unfolding s by (simp add: power_add)
    then have "snap X < 2 ^ nat (int (53 + j))" by (simp only: nat_int)
    then have "bitlen (snap X) \<le> int (53 + j)"
      unfolding bitlen_le_iff_power by simp
    then have "nat (bitlen (snap X) - 53) \<le> j" by simp
    then have "(2::int) ^ nat (bitlen (snap X) - 53) dvd 2 ^ j"
      by (rule le_imp_power_dvd)
    then have "(2::int) ^ nat (bitlen (snap X) - 53) dvd k * 2 ^ j"
      by (rule dvd_mult)
    then show ?thesis unfolding grid_def s [symmetric] .
  qed
qed

lemma dbl_0 [simp]: "dbl 0"
  by (simp add: dbl_def grid_def)

lemma dbl_minus [simp]: "dbl (- x) = dbl x"
  by (simp add: dbl_def)

lemma nearest_dbl: "0 \<le> x \<Longrightarrow> dbl x \<Longrightarrow> nearest x = x"
proof -
  assume x: "0 \<le> x" and d: "dbl x"
  define n where "n = \<lfloor>x * 2 ^ sub_exp\<rfloor>"
  from d x have e: "of_int n = x * 2 ^ sub_exp" and g: "grid n"
    by (simp_all add: dbl_def Let_def n_def)
  have "snap (x * 2 ^ sub_exp) = n" unfolding e [symmetric] using g by (rule snap_grid)
  then have "nearest x = of_int n / 2 ^ sub_exp" by (simp add: nearest_def)
  also have "\<dots> = x" unfolding e by simp
  finally show ?thesis .
qed

lemma dbl_nearest: "0 \<le> x \<Longrightarrow> nearest x < 2 ^ top_exp \<Longrightarrow> dbl (nearest x)"
proof -
  assume x: "0 \<le> x" and b: "nearest x < 2 ^ top_exp"
  define n where "n = snap (x * 2 ^ sub_exp)"
  have "\<bar>nearest x\<bar> = nearest x" using nearest_nonneg [OF x] by simp
  moreover have "nearest x * 2 ^ sub_exp = of_int n" by (simp add: nearest_def n_def)
  ultimately have e: "\<bar>nearest x\<bar> * 2 ^ sub_exp = of_int n" by (simp only:)
  have g: "grid n" unfolding n_def using x by (intro grid_snap) simp
  have "\<bar>nearest x\<bar> < 2 ^ top_exp" using b nearest_nonneg [OF x] by simp
  with g show ?thesis unfolding dbl_def Let_def e by simp
qed

lemma round64_dbl: "dbl x \<Longrightarrow> round64 x = Fin x"
proof -
  assume d: "dbl x"
  then have b: "\<bar>x\<bar> < 2 ^ top_exp" by (simp add: dbl_def Let_def)
  consider "x = 0" | "0 < x" | "x < 0" by linarith
  then show ?thesis
  proof cases
    case 1
    then show ?thesis by (simp add: round64_def)
  next
    case 2
    with d have "nearest x = x" by (intro nearest_dbl) simp_all
    with 2 b show ?thesis by (simp add: round64_def)
  next
    case 3
    with d have "nearest (- x) = - x" by (intro nearest_dbl) simp_all
    with 3 b show ?thesis by (simp add: round64_def)
  qed
qed

lemma round64_cases:
  obtains "round64 x = PosInf" "0 < x"
  | "round64 x = NegInf" "x < 0"
  | "round64 x = NegZero" "x < 0"
  | y where "round64 x = Fin y" "dbl y" "0 \<le> x \<longrightarrow> 0 \<le> y" "x \<le> 0 \<longrightarrow> y \<le> 0"
proof -
  consider "x = 0" | "0 < x" | "x < 0" by linarith
  then show ?thesis
  proof cases
    case 1
    then have "round64 x = Fin 0" by (simp add: round64_def)
    with 1 that(4) [of 0] show ?thesis by simp
  next
    case 2
    show ?thesis
    proof (cases "2 ^ top_exp \<le> nearest x")
      case True
      with 2 that(1) show ?thesis by (simp add: round64_def)
    next
      case False
      with 2 have r: "round64 x = Fin (nearest x)" by (simp add: round64_def)
      from 2 False have "dbl (nearest x)" by (intro dbl_nearest) simp_all
      moreover from 2 have "0 \<le> nearest x" by (intro nearest_nonneg) simp
      ultimately show ?thesis using r 2 that(4) [of "nearest x"] by simp
    qed
  next
    case 3
    then have n0: "0 \<le> nearest (- x)" by (intro nearest_nonneg) simp
    show ?thesis
    proof (cases "2 ^ top_exp \<le> nearest (- x)")
      case True
      with 3 that(2) show ?thesis by (simp add: round64_def)
    next
      case False
      note F = False
      show ?thesis
      proof (cases "nearest (- x) = 0")
        case True
        with 3 F have "round64 x = NegZero" by (simp add: round64_def)
        then show ?thesis using 3 by (rule that(3))
      next
        case False
        with 3 F have r: "round64 x = Fin (- nearest (- x))" by (simp add: round64_def)
        from 3 F have "dbl (nearest (- x))" by (intro dbl_nearest) simp_all
        then have "dbl (- nearest (- x))" by simp
        with r n0 3 that(4) [of "- nearest (- x)"] show ?thesis by simp
      qed
    qed
  qed
qed

lemma round64_not_NaN [simp]: "round64 x \<noteq> NaN"
  by (rule round64_cases [of x]) simp_all

lemma round64_mono: "x \<le> y \<Longrightarrow> js_le (round64 x) (round64 y)"
proof -
  assume le: "x \<le> y"
  consider "0 < x" | "x \<le> 0" "0 \<le> y" | "y < 0" by linarith
  then show ?thesis
  proof cases
    case 1
    with le have y: "0 < y" by simp
    from le have n: "nearest x \<le> nearest y" by (rule nearest_mono)
    with 1 y show ?thesis by (auto simp: round64_def js_le_def Let_def)
  next
    case 2
    have a: "rank (round64 x) < 0 \<or> rank (round64 x) = 0 \<and> fv (round64 x) \<le> 0"
      using 2(1) by (rule_tac x = x in round64_cases) auto
    have b: "0 < rank (round64 y) \<or> rank (round64 y) = 0 \<and> 0 \<le> fv (round64 y)"
      using 2(2) by (rule_tac x = y in round64_cases) auto
    from a b show ?thesis by (auto simp: js_le_def)
  next
    case 3
    with le have x: "x < 0" by simp
    from le have n: "nearest (- y) \<le> nearest (- x)" by (intro nearest_mono) simp
    have "0 \<le> nearest (- y)" using 3 by (intro nearest_nonneg) simp
    with 3 x n show ?thesis by (auto simp: round64_def js_le_def Let_def)
  qed
qed

lemma bitlen_1: "bitlen 1 = 1"
  by (subst compute_bitlen) simp

lemma grid_of_nat_mult:
  assumes m: "m \<le> 2 ^ 53"
  shows "grid (int m * 2 ^ sub_exp)"
proof (cases "m = 0")
  case True
  then show ?thesis by (simp add: grid_def)
next
  case False
  then have pos: "0 < int m" by simp
  have b: "bitlen (int m * 2 ^ sub_exp) = bitlen (int m) + int sub_exp"
    using pos by (rule bitlen_pow2)
  show ?thesis
  proof (cases "m = 2 ^ 53")
    case True
    have e: "int m * 2 ^ sub_exp = 2 ^ (53 + sub_exp)" unfolding True by (simp add: power_add)
    have "bitlen (1 * (2::int) ^ (53 + sub_exp)) = bitlen 1 + int (53 + sub_exp)"
      by (rule bitlen_pow2) simp
    then have "bitlen ((2::int) ^ (53 + sub_exp)) - 53 = int (sub_exp + 1)"
      by (simp add: bitlen_1)
    then have n: "nat (bitlen ((2::int) ^ (53 + sub_exp)) - 53) = sub_exp + 1"
      by (simp only: nat_int)
    have "(2::int) ^ (sub_exp + 1) dvd 2 ^ (53 + sub_exp)" by (rule le_imp_power_dvd) simp
    then show ?thesis unfolding grid_def e n .
  next
    case False
    with m have "m < 2 ^ 53" by simp
    then have "int m < 2 ^ nat 53"
      by (metis nat_numeral of_nat_less_iff of_nat_numeral of_nat_power)
    then have "bitlen (int m) \<le> 53" unfolding bitlen_le_iff_power [of "int m" 53] by simp
    then have "nat (bitlen (int m * 2 ^ sub_exp) - 53) \<le> sub_exp" unfolding b by simp
    then have "(2::int) ^ nat (bitlen (int m * 2 ^ sub_exp) - 53) dvd 2 ^ sub_exp"
      by (rule le_imp_power_dvd)
    then show ?thesis unfolding grid_def by (rule dvd_mult)
  qed
qed

lemma dbl_of_nat: "m \<le> 2 ^ 53 \<Longrightarrow> dbl (of_nat m)"
proof -
  assume m: "m \<le> 2 ^ 53"
  have e: "\<bar>rat_of_nat m\<bar> * 2 ^ sub_exp = of_int (int m * 2 ^ sub_exp)" by simp
  have f: "\<lfloor>rat_of_int (int m * 2 ^ sub_exp)\<rfloor> = int m * 2 ^ sub_exp" by (rule floor_of_int)
  have "rat_of_nat m \<le> 2 ^ 53" using m
    by (metis of_nat_le_iff of_nat_numeral of_nat_power)
  also have "\<dots> < (2::rat) ^ top_exp"
    by (rule power_strict_increasing) (simp_all add: top_exp_def)
  finally have "\<bar>rat_of_nat m\<bar> < 2 ^ top_exp" by simp
  with grid_of_nat_mult [OF m] show ?thesis
    unfolding dbl_def Let_def e f by simp
qed

lemma dbl_scaled: "dbl x \<Longrightarrow> \<exists>k::int. x * 2 ^ sub_exp = of_int k"
proof -
  assume "dbl x"
  then have e: "of_int \<lfloor>\<bar>x\<bar> * 2 ^ sub_exp\<rfloor> = \<bar>x\<bar> * 2 ^ sub_exp"
    unfolding dbl_def Let_def by blast
  show ?thesis
  proof (cases "0 \<le> x")
    case True
    then have a: "\<bar>x\<bar> = x" by simp
    from e [unfolded a, symmetric] show ?thesis ..
  next
    case False
    then have a: "\<bar>x\<bar> = - x" by simp
    have "x * 2 ^ sub_exp = - (- x * 2 ^ sub_exp)" by simp
    also have "\<dots> = - of_int \<lfloor>- x * 2 ^ sub_exp\<rfloor>"
      by (simp only: e [unfolded a])
    also have "\<dots> = of_int (- \<lfloor>- x * 2 ^ sub_exp\<rfloor>)" by simp
    finally show ?thesis ..
  qed
qed

lemma dbl_gap: "dbl x \<Longrightarrow> dbl y \<Longrightarrow> x < y \<Longrightarrow> 1 / 2 ^ sub_exp \<le> y - x"
proof -
  assume "dbl x" and "dbl y" and lt: "x < y"
  then obtain k l :: int where k: "x * 2 ^ sub_exp = of_int k" and l: "y * 2 ^ sub_exp = of_int l"
    using dbl_scaled by blast
  from lt have "x * 2 ^ sub_exp < y * 2 ^ sub_exp" by simp
  then have "k < l" unfolding k l by simp
  then have "k + 1 \<le> l" by simp
  then have "rat_of_int (k + 1) \<le> of_int l" by (simp only: of_int_le_iff)
  then have "x * 2 ^ sub_exp + 1 \<le> y * 2 ^ sub_exp" unfolding k l by simp
  then have "1 \<le> (y - x) * 2 ^ sub_exp" by (simp add: algebra_simps)
  then show ?thesis by (simp add: pos_divide_le_eq)
qed

lemma dbl_min: "dbl (1 / 2 ^ sub_exp)"
proof -
  have g: "grid 1" by (simp add: grid_def bitlen_1)
  have "(1::rat) / 2 ^ sub_exp \<le> 1" by simp
  also have "(1::rat) < 2 ^ top_exp" by (rule one_less_power) (simp_all add: top_exp_def)
  finally have b: "\<bar>(1::rat) / 2 ^ sub_exp\<bar> < 2 ^ top_exp" by simp
  have e: "\<bar>(1::rat) / 2 ^ sub_exp\<bar> * 2 ^ sub_exp = of_int 1" by simp
  have f: "\<lfloor>rat_of_int 1\<rfloor> = 1" by simp
  from g b show ?thesis unfolding dbl_def Let_def e f by simp
qed

subsection \<open>Order and arithmetic\<close>

lemma rank_finite: "isFinite a \<Longrightarrow> rank a = 0"
  by (cases a) simp_all

lemma js_le_refl: "a \<noteq> NaN \<Longrightarrow> js_le a a"
  by (simp add: js_le_def)

lemma js_le_trans: "js_le a b \<Longrightarrow> js_le b c \<Longrightarrow> js_le a c"
  by (auto simp: js_le_def)

lemma js_lt_imp_le: "js_lt a b \<Longrightarrow> js_le a b"
  by (auto simp: js_le_def js_lt_def)

lemma js_le_lt_trans: "js_le a b \<Longrightarrow> js_lt b c \<Longrightarrow> js_lt a c"
  by (auto simp: js_le_def js_lt_def)

lemma js_lt_le_trans: "js_lt a b \<Longrightarrow> js_le b c \<Longrightarrow> js_lt a c"
  by (auto simp: js_le_def js_lt_def)

lemma js_not_le: "a \<noteq> NaN \<Longrightarrow> b \<noteq> NaN \<Longrightarrow> \<not> js_le a b \<Longrightarrow> js_lt b a"
  by (auto simp: js_le_def js_lt_def)

lemma js_lt_not_le: "js_lt a b \<Longrightarrow> \<not> js_le b a"
  by (auto simp: js_le_def js_lt_def)

lemma js_le_not_NaN: "js_le a b \<Longrightarrow> a \<noteq> NaN \<and> b \<noteq> NaN"
  by (simp add: js_le_def)

lemma js_lt_not_NaN: "js_lt a b \<Longrightarrow> a \<noteq> NaN \<and> b \<noteq> NaN"
  by (simp add: js_lt_def)

lemma nonNegative_cases:
  "nonNegative a \<longleftrightarrow> a = PosInf \<or> (isFinite a \<and> 0 \<le> fv a \<and> dbl (fv a))"
  by (cases a) (auto simp: nonNegative_def js_le_def)

lemma nonNegative_0 [simp]: "nonNegative (Fin 0)"
  by (simp add: nonNegative_cases)

lemma js_le_Fin_fv_left: "isFinite a \<Longrightarrow> js_le (Fin (fv a)) z = js_le a z"
  by (cases a) (auto simp: js_le_def)

lemma js_le_Fin_fv_right: "isFinite a \<Longrightarrow> js_le z (Fin (fv a)) = js_le z a"
  by (cases a) (auto simp: js_le_def)

lemma js_lt_Fin_fv_left: "isFinite a \<Longrightarrow> js_lt (Fin (fv a)) z = js_lt a z"
  by (cases a) (auto simp: js_lt_def)

lemma js_lt_Fin_fv_right: "isFinite a \<Longrightarrow> js_lt z (Fin (fv a)) = js_lt z a"
  by (cases a) (auto simp: js_lt_def)

lemma isNumber_round64 [simp]: "isNumber (round64 x)"
  by (rule round64_cases [of x]) simp_all

lemma isNumber_zero [simp]: "isNumber (zero s)"
  by (simp add: zero_def)

lemma isNumber_inf [simp]: "isNumber (inf s)"
  by (simp add: inf_def)

lemma isNumber_js_neg: "isNumber a \<Longrightarrow> isNumber (js_neg a)"
  by (cases a) auto


lemma isNumber_js_mul [simp]: "isNumber (js_mul a b)"
  by (auto simp: js_mul_def)

lemma isNumber_js_div [simp]: "isNumber (js_div a b)"
  by (auto simp: js_div_def)

lemma round64_nonneg: "0 \<le> x \<Longrightarrow> nonNegative (round64 x)"
  by (rule round64_cases [of x]) (auto simp: nonNegative_cases)

lemma round64_pos_finite:
  assumes "0 < x" and "x \<le> y" and "dbl y"
  shows "\<exists>z. round64 x = Fin z \<and> 0 \<le> z \<and> z \<le> y \<and> dbl z"
proof -
  from assms(2) have "js_le (round64 x) (round64 y)" by (rule round64_mono)
  with assms(3) have le: "js_le (round64 x) (Fin y)" by (simp add: round64_dbl)
  show ?thesis
    using assms(1) le
    by (rule_tac x = x in round64_cases) (auto simp: js_le_def)
qed

text \<open>The sum of two non-negative numbers is non-negative and not below the first.\<close>

lemma js_add_nonNegative:
  assumes a: "nonNegative a" and b: "nonNegative b"
  shows "nonNegative (js_add a b) \<and> js_le a (js_add a b)"
proof (cases "isFinite a \<and> isFinite b")
  case False
  with a b show ?thesis
    by (cases a; cases b) (auto simp: nonNegative_cases js_add_def js_le_def)
next
  case True
  with a b have fa: "0 \<le> fv a" "dbl (fv a)" and fb: "0 \<le> fv b" "dbl (fv b)"
    by (auto simp: nonNegative_cases)
  from a have an: "a \<noteq> NaN" by (auto simp: nonNegative_cases)
  from b have bn: "b \<noteq> NaN" by (auto simp: nonNegative_cases)
  show ?thesis
  proof (cases "fv a + fv b = 0")
    case z: True
    with fa fb have "fv a = 0" by simp
    with True z an bn show ?thesis
      by (cases a) (auto simp: js_add_def zero_def nonNegative_cases js_le_def)
  next
    case nz: False
    with True an bn have e: "js_add a b = round64 (fv a + fv b)" by (simp add: js_add_def)
    have n: "nonNegative (round64 (fv a + fv b))"
      using fa fb by (intro round64_nonneg) simp
    have "js_le (round64 (fv a)) (round64 (fv a + fv b))"
      using fb by (intro round64_mono) simp
    then have "js_le (Fin (fv a)) (round64 (fv a + fv b))"
      using fa by (simp add: round64_dbl)
    then have "js_le a (round64 (fv a + fv b))"
      using True by (simp add: js_le_Fin_fv_left)
    with n show ?thesis unfolding e by simp
  qed
qed

text \<open>The dash length of a stroke drawn in part: positive and at most the length of the
  stroke.\<close>

lemma part_bounds:
  assumes s: "nonNegative s" and l: "nonNegative l" and c: "isNumber c"
    and lt: "js_lt s c" and nle: "\<not> js_le (js_add s l) c"
  shows "\<exists>y. c = Fin y \<and> fv s < y \<and> isFinite s \<and>
           (\<exists>z. js_sub c s = Fin z \<and> 0 < z \<and> dbl z \<and> z = nearest (y - fv s) \<and>
                js_le (Fin z) l)"
proof -
  from lt s have sf: "isFinite s" and s0: "0 \<le> fv s" and sd: "dbl (fv s)"
    by (cases c; auto simp: nonNegative_cases js_lt_def)+
  from js_add_nonNegative [OF s l] have sumn: "js_add s l \<noteq> NaN"
    by (auto simp: nonNegative_cases)
  from lt have cn: "c \<noteq> NaN" by (simp add: js_lt_def)
  have "c \<noteq> PosInf"
  proof
    assume "c = PosInf"
    with sumn have "js_le (js_add s l) c" by (cases "js_add s l") (auto simp: js_le_def)
    with nle show False ..
  qed
  with lt sf s0 cn obtain y where y: "c = Fin y" and xy: "fv s < y"
    by (cases c) (auto simp: js_lt_def rank_finite)
  from c y have yd: "dbl y" by simp
  have neg: "isFinite (js_neg s) \<and> fv (js_neg s) = - fv s \<and> js_neg s \<noteq> NaN"
    using sf by (cases s) auto
  from xy have nz: "y + - fv s \<noteq> 0" by simp
  have sub: "js_sub c s = round64 (y - fv s)"
    using neg nz by (simp add: js_sub_def js_add_def y)
  have pos: "0 < y - fv s" using xy by simp
  have gap: "1 / 2 ^ sub_exp \<le> y - fv s" using sd yd xy by (rule dbl_gap)
  have yle: "y - fv s \<le> y" using s0 by simp
  from round64_pos_finite [OF pos yle yd] obtain z where
    z: "round64 (y - fv s) = Fin z" and zd: "dbl z" by blast
  from pos have zn: "z = nearest (y - fv s)"
    using z by (auto simp: round64_def Let_def split: if_splits)
  have "nearest (1 / 2 ^ sub_exp) \<le> nearest (y - fv s)" using gap by (rule nearest_mono)
  then have "1 / 2 ^ sub_exp \<le> z" unfolding zn using dbl_min by (simp add: nearest_dbl)
  moreover have "(0::rat) < 1 / 2 ^ sub_exp" by simp
  ultimately have zpos: "0 < z" by linarith
  have zl: "js_le (Fin z) l"
  proof (cases "isFinite l")
    case False
    with l have "l = PosInf" by (auto simp: nonNegative_cases)
    then show ?thesis by (simp add: js_le_def)
  next
    case True
    with l have l0: "0 \<le> fv l" and ld: "dbl (fv l)" by (auto simp: nonNegative_cases)
    from l have ln: "l \<noteq> NaN" by (auto simp: nonNegative_cases)
    have le: "y \<le> fv s + fv l"
    proof (rule ccontr)
      assume "\<not> y \<le> fv s + fv l"
      then have lt': "fv s + fv l \<le> y" by simp
      from lt have sn: "s \<noteq> NaN" by (simp add: js_lt_def)
      have "js_le (js_add s l) (Fin y)"
      proof (cases "fv s + fv l = 0")
        case True
        with xy s0 sf \<open>isFinite l\<close> sn ln show ?thesis
          by (auto simp: js_add_def zero_def js_le_def)
      next
        case False
        with sf \<open>isFinite l\<close> sn ln have "js_add s l = round64 (fv s + fv l)"
          by (simp add: js_add_def)
        moreover have "js_le (round64 (fv s + fv l)) (round64 y)" using lt' by (rule round64_mono)
        ultimately show ?thesis using yd by (simp add: round64_dbl)
      qed
      with nle y show False by simp
    qed
    then have "y - fv s \<le> fv l" by simp
    then have "js_le (round64 (y - fv s)) (round64 (fv l))" by (rule round64_mono)
    then have "js_le (Fin z) (Fin (fv l))" using z ld by (simp add: round64_dbl)
    then show ?thesis using True by (simp add: js_le_Fin_fv_right)
  qed
  from y xy sf sub z zpos zd zn zl show ?thesis by auto
qed

lemma js_mul_commute: "js_mul a b = js_mul b a"
proof -
  have "(isNeg a \<noteq> isNeg b) = (isNeg b \<noteq> isNeg a)" by auto
  then show ?thesis unfolding js_mul_def by (auto simp: mult.commute)
qed

lemma dbl_1 [simp]: "dbl 1"
  using dbl_of_nat [of 1] by simp

lemma js_mul_1: "isNumber a \<Longrightarrow> js_mul a (Fin 1) = a"
  by (cases a) (auto simp: js_mul_def zero_def inf_def round64_dbl)

lemma js_le_zero_left: "js_le (zero s) z = js_le (Fin 0) z"
  by (simp add: zero_def js_le_def)

lemma js_le_zero_right: "js_le z (zero s) = js_le z (Fin 0)"
  by (simp add: zero_def js_le_def)

lemma js_mul_finite_left:
  "isFinite a \<Longrightarrow> isFinite b \<Longrightarrow> js_le (js_mul a b) z = js_le (round64 (fv a * fv b)) z"
  by (cases a; cases b) (auto simp: js_mul_def js_le_zero_left round64_def)

lemma js_mul_finite_right:
  "isFinite a \<Longrightarrow> isFinite b \<Longrightarrow> js_le z (js_mul a b) = js_le z (round64 (fv a * fv b))"
  by (cases a; cases b) (auto simp: js_mul_def js_le_zero_right round64_def)

text \<open>A quotient \<open>i / t\<close> with \<open>i < t\<close> is a number between 0 and 1.\<close>

lemma js_div_unit:
  assumes lt: "js_lt (Fin (of_nat i)) t"
  shows "\<exists>u. js_div (Fin (of_nat i)) t = Fin u \<and> 0 \<le> u \<and> u \<le> 1 \<and> dbl u"
proof (cases t)
  case NaN
  with lt show ?thesis by (simp add: js_lt_def)
next
  case PosInf
  then show ?thesis by (simp add: js_div_def zero_def)
next
  case NegInf
  with lt show ?thesis by (simp add: js_lt_def)
next
  case NegZero
  with lt show ?thesis by (simp add: js_lt_def)
next
  case (Fin x)
  with lt have x: "rat_of_nat i < x" by (simp add: js_lt_def)
  then have x0: "0 < x" by (meson le_less_trans of_nat_0_le_iff)
  show ?thesis
  proof (cases "i = 0")
    case True
    with Fin x0 show ?thesis by (simp add: js_div_def zero_def)
  next
    case False
    then have pos: "0 < rat_of_nat i / x" using x0 by simp
    have le: "rat_of_nat i / x \<le> 1" using x x0 by simp
    from False x0 Fin have "js_div (Fin (of_nat i)) t = round64 (rat_of_nat i / x)"
      by (simp add: js_div_def)
    with round64_pos_finite [OF pos le dbl_1] show ?thesis by auto
  qed
qed

lemma js_div_mono:
  assumes ij: "i \<le> j" and lt: "js_lt (Fin (of_nat j)) t"
  shows "js_le (js_div (Fin (of_nat i)) t) (js_div (Fin (of_nat j)) t)"
proof (cases t)
  case NaN
  with lt show ?thesis by (simp add: js_lt_def)
next
  case PosInf
  then show ?thesis by (simp add: js_div_def zero_def js_le_def)
next
  case NegInf
  with lt show ?thesis by (simp add: js_lt_def)
next
  case NegZero
  with lt show ?thesis by (simp add: js_lt_def)
next
  case (Fin x)
  with lt have x: "rat_of_nat j < x" by (simp add: js_lt_def)
  then have x0: "0 < x" by (meson le_less_trans of_nat_0_le_iff)
  have m: "rat_of_nat i / x \<le> rat_of_nat j / x"
    using ij x0 by (simp add: divide_right_mono)
  have r: "js_le (round64 (rat_of_nat i / x)) (round64 (rat_of_nat j / x))"
    using m by (rule round64_mono)
  have e: "\<And>k. js_le (js_div (Fin (of_nat k)) t) z = js_le (round64 (rat_of_nat k / x)) z" for z
    using Fin x0 by (simp add: js_div_def js_le_zero_left round64_def)
  have e': "\<And>k. js_le z (js_div (Fin (of_nat k)) t) = js_le z (round64 (rat_of_nat k / x))" for z
    using Fin x0 by (simp add: js_div_def js_le_zero_right round64_def)
  show ?thesis unfolding e e' by (rule r)
qed

text \<open>The product of a number of the unit interval with a non-negative number grows with
  the first factor; it is not a number only when the factors are zero and infinity.\<close>

lemma js_mul_mono:
  assumes u: "0 \<le> u" and uu: "u \<le> u'" and L: "nonNegative L"
  shows "js_mul (Fin u) L = NaN \<or> js_le (js_mul (Fin u) L) (js_mul (Fin u') L)"
proof (cases "isFinite L")
  case False
  with L have "L = PosInf" by (auto simp: nonNegative_cases)
  with u uu show ?thesis by (auto simp: js_mul_def inf_def js_le_def)
next
  case True
  with L have w: "0 \<le> fv L" by (auto simp: nonNegative_cases)
  have "u * fv L \<le> u' * fv L" using uu w by (rule mult_right_mono)
  then have "js_le (round64 (u * fv L)) (round64 (u' * fv L))" by (rule round64_mono)
  then have "js_le (js_mul (Fin u) L) (js_mul (Fin u') L)"
    using True by (simp add: js_mul_finite_left js_mul_finite_right)
  then show ?thesis ..
qed

lemma js_mul_unit_le:
  assumes u: "0 \<le> u" and u1: "u \<le> 1" and L: "nonNegative L"
  shows "js_mul (Fin u) L = NaN \<or> js_le (js_mul (Fin u) L) L"
proof -
  from L have "isNumber L" by (simp add: nonNegative_def)
  then have "js_mul (Fin 1) L = L" by (simp add: js_mul_commute [of "Fin 1"] js_mul_1)
  with js_mul_mono [OF u u1 L] show ?thesis by simp
qed

subsection \<open>Evaluation\<close>

lemma grid_mult_pow:
  assumes m: "m \<le> 2 ^ 53"
  shows "grid (int m * 2 ^ e)"
proof (cases "m = 0")
  case True
  then show ?thesis by (simp add: grid_def)
next
  case False
  then have pos: "0 < int m" by simp
  have b: "bitlen (int m * 2 ^ e) = bitlen (int m) + int e"
    using pos by (rule bitlen_pow2)
  show ?thesis
  proof (cases "m = 2 ^ 53")
    case True
    have e: "int m * 2 ^ e = 2 ^ (53 + e)" unfolding True by (simp add: power_add)
    have "bitlen (1 * (2::int) ^ (53 + e)) = bitlen 1 + int (53 + e)"
      by (rule bitlen_pow2) simp
    then have "bitlen ((2::int) ^ (53 + e)) - 53 = int (e + 1)"
      by (simp add: bitlen_1)
    then have n: "nat (bitlen ((2::int) ^ (53 + e)) - 53) = e + 1"
      by (simp only: nat_int)
    have "(2::int) ^ (e + 1) dvd 2 ^ (53 + e)" by (rule le_imp_power_dvd) simp
    then show ?thesis unfolding grid_def e n .
  next
    case False
    with m have "m < 2 ^ 53" by simp
    then have "int m < 2 ^ nat 53"
      by (metis nat_numeral of_nat_less_iff of_nat_numeral of_nat_power)
    then have "bitlen (int m) \<le> 53" unfolding bitlen_le_iff_power [of "int m" 53] by simp
    then have "nat (bitlen (int m * 2 ^ e) - 53) \<le> e" unfolding b by simp
    then have "(2::int) ^ nat (bitlen (int m * 2 ^ e) - 53) dvd 2 ^ e"
      by (rule le_imp_power_dvd)
    then show ?thesis unfolding grid_def by (rule dvd_mult)
  qed
qed

text \<open>A number \<open>m / 2\<^sup>p\<close> with \<open>m \<le> 2\<^sup>5\<^sup>3\<close> and \<open>p \<le> 1074\<close> is a double.\<close>

lemma dbl_dyadic:
  assumes m: "m \<le> 2 ^ 53" and p: "p \<le> sub_exp"
  shows "dbl (of_nat m / 2 ^ p)"
proof -
  define e where "e = sub_exp - p"
  have s: "sub_exp = p + e" using p by (simp add: e_def)
  have "rat_of_nat m / 2 ^ p * 2 ^ sub_exp = of_nat m * 2 ^ e"
    unfolding s by (simp add: power_add)
  then have e1: "\<bar>rat_of_nat m / 2 ^ p\<bar> * 2 ^ sub_exp = of_int (int m * 2 ^ e)" by simp
  have f: "\<lfloor>rat_of_int (int m * 2 ^ e)\<rfloor> = int m * 2 ^ e" by (rule floor_of_int)
  have "rat_of_nat m / 2 ^ p \<le> of_nat m"
    by (simp add: pos_divide_le_eq mult_le_cancel_left1)
  also have "rat_of_nat m \<le> 2 ^ 53" using m
    by (metis of_nat_le_iff of_nat_numeral of_nat_power)
  also have "\<dots> < (2::rat) ^ top_exp"
    by (rule power_strict_increasing) (simp_all add: top_exp_def)
  finally have "\<bar>rat_of_nat m / 2 ^ p\<bar> < 2 ^ top_exp" by simp
  with grid_mult_pow [OF m, of e] show ?thesis
    unfolding dbl_def Let_def e1 f by simp
qed

lemma round64_of_nat: "m \<le> 2 ^ 53 \<Longrightarrow> round64 (of_nat m) = Fin (of_nat m)"
  by (rule round64_dbl) (rule dbl_of_nat)

lemma round64_numeral:
  "numeral n \<le> (2::nat) ^ 53 \<Longrightarrow> round64 (numeral n) = Fin (numeral n)"
  using round64_of_nat [of "numeral n"] by simp

text \<open>Rounding a positive rational, in the binade given by \<open>p\<close>.\<close>

lemma round64_eval:
  assumes x: "0 < x" and p: "p \<le> sub_exp"
    and lo: "2 ^ 52 \<le> \<lfloor>x * 2 ^ p\<rfloor>" and hi: "\<lfloor>x * 2 ^ p\<rfloor> < 2 ^ 53"
  shows "round64 x = Fin (of_int (rne (x * 2 ^ p)) / 2 ^ p)"
proof -
  define j where "j = sub_exp - p"
  define X where "X = x * 2 ^ sub_exp"
  define q where "q = \<lfloor>x * 2 ^ p\<rfloor>"
  have s: "sub_exp = p + j" using p by (simp add: j_def)
  have X: "X = x * 2 ^ p * 2 ^ j" unfolding X_def s by (simp add: power_add)
  have ql: "of_int q \<le> x * 2 ^ p" unfolding q_def by simp
  have qu: "x * 2 ^ p < of_int (q + 1)" unfolding q_def by linarith
  have "rat_of_int (q * 2 ^ j) \<le> X" unfolding X using ql by simp
  then have l1: "q * 2 ^ j \<le> \<lfloor>X\<rfloor>" by (simp add: le_floor_iff)
  have "(2::int) ^ 52 * 2 ^ j \<le> q * 2 ^ j"
    using lo unfolding q_def by (intro mult_right_mono) simp_all
  then have "(2::int) ^ (52 + j) \<le> q * 2 ^ j" by (simp only: power_add)
  with l1 have low: "(2::int) ^ (52 + j) \<le> \<lfloor>X\<rfloor>" by (rule order_trans [rotated])
  have "X < rat_of_int ((q + 1) * 2 ^ j)" unfolding X using qu by simp
  then have "\<lfloor>X\<rfloor> < (q + 1) * 2 ^ j" by (simp add: floor_less_iff)
  moreover have "(q + 1) * 2 ^ j \<le> (2::int) ^ 53 * 2 ^ j"
    using hi unfolding q_def by (intro mult_right_mono) simp_all
  then have "(q + 1) * 2 ^ j \<le> (2::int) ^ (53 + j)" by (simp only: power_add)
  ultimately have up: "\<lfloor>X\<rfloor> < (2::int) ^ (53 + j)" by (rule less_le_trans)
  have "\<lfloor>X\<rfloor> < 2 ^ nat (int (53 + j))" using up by (simp only: nat_int)
  then have b1: "bitlen \<lfloor>X\<rfloor> \<le> int (53 + j)" unfolding bitlen_le_iff_power by simp
  have "nat (int (53 + j)) - 1 = 52 + j" by simp
  then have "(2::int) ^ (nat (int (53 + j)) - 1) \<le> \<lfloor>X\<rfloor>" using low by (simp only:)
  then have b2: "int (53 + j) \<le> bitlen \<lfloor>X\<rfloor>" unfolding bitlen_ge_iff_power by blast
  from b1 b2 have bj: "nat (bitlen \<lfloor>X\<rfloor> - 53) = j" by simp
  have "X / 2 ^ j = x * 2 ^ p" unfolding X by simp
  then have sn: "snap X = rne (x * 2 ^ p) * 2 ^ j" by (simp add: snap_def Let_def bj)
  have "nearest x = rat_of_int (rne (x * 2 ^ p) * 2 ^ j) / 2 ^ sub_exp"
    unfolding nearest_def X_def [symmetric] sn ..
  also have "\<dots> = of_int (rne (x * 2 ^ p)) / 2 ^ p" unfolding s by (simp add: power_add)
  finally have n: "nearest x = of_int (rne (x * 2 ^ p)) / 2 ^ p" .
  have "rne (x * 2 ^ p) \<le> q + 1" using qu by (intro rne_le) simp
  also have "\<dots> \<le> 2 ^ 53" using hi unfolding q_def by simp
  finally have "rat_of_int (rne (x * 2 ^ p)) \<le> of_int (2 ^ 53)" by (simp only: of_int_le_iff)
  then have "rat_of_int (rne (x * 2 ^ p)) / 2 ^ p \<le> 2 ^ 53 / 2 ^ p"
    by (simp add: divide_right_mono)
  also have "\<dots> \<le> (2::rat) ^ 53" by (simp add: pos_divide_le_eq mult_le_cancel_left1)
  also have "\<dots> < (2::rat) ^ top_exp"
    by (rule power_strict_increasing) (simp_all add: top_exp_def)
  finally have "\<not> 2 ^ top_exp \<le> nearest x" unfolding n by simp
  with x n show ?thesis by (simp add: round64_def Let_def)
qed

lemma rne_frac:
  assumes b: "0 < b"
  shows "rne (of_int n / of_int b) =
     (if 2 * (n mod b) < b then n div b
      else if b < 2 * (n mod b) then n div b + 1
      else if even (n div b) then n div b else n div b + 1)"
proof -
  have f: "\<lfloor>rat_of_int n / of_int b\<rfloor> = n div b" by (rule floor_divide_of_int_eq)
  have "b * (n div b) + n mod b = n" by simp
  then have "rat_of_int n = of_int (b * (n div b) + n mod b)" by (simp only:)
  then have "rat_of_int n = of_int b * of_int (n div b) + of_int (n mod b)"
    by (simp only: of_int_add of_int_mult)
  then have "rat_of_int n / of_int b =
      (of_int b * of_int (n div b) + of_int (n mod b)) / of_int b" by (simp only:)
  also have "\<dots> = of_int (n div b) + of_int (n mod b) / of_int b"
    using b by (simp add: add_divide_distrib)
  finally have "rat_of_int n / of_int b = of_int (n div b) + of_int (n mod b) / of_int b" .
  then have r: "rat_of_int n / of_int b - of_int (n div b) = of_int (n mod b) / of_int b"
    by simp
  have lt: "(rat_of_int (n mod b) / of_int b < 1 / 2) = (2 * (n mod b) < b)"
  proof -
    have "(rat_of_int (n mod b) / of_int b < 1 / 2) = (rat_of_int (2 * (n mod b)) < of_int b)"
      using b by (simp add: field_simps)
    then show ?thesis by (simp only: of_int_less_iff)
  qed
  have gt: "(1 / 2 < rat_of_int (n mod b) / of_int b) = (b < 2 * (n mod b))"
  proof -
    have "(1 / 2 < rat_of_int (n mod b) / of_int b) = (rat_of_int b < of_int (2 * (n mod b)))"
      using b by (simp add: field_simps)
    then show ?thesis by (simp only: of_int_less_iff)
  qed
  show ?thesis unfolding rne_def Let_def f r lt gt ..
qed

lemma rne_numeral_frac:
  "rne (numeral n / numeral b) =
     (if 2 * (numeral n mod numeral b) < (numeral b :: int) then numeral n div numeral b
      else if (numeral b :: int) < 2 * (numeral n mod numeral b) then numeral n div numeral b + 1
      else if even (numeral n div numeral b :: int) then numeral n div numeral b
      else numeral n div numeral b + 1)"
  using rne_frac [of "numeral b" "numeral n"] by simp

lemma rne_numeral: "rne (numeral n) = numeral n"
  using rne_of_int [of "numeral n"] by simp

lemma round64_frac:
  assumes a: "0 < a" and b: "0 < b" and p: "p \<le> sub_exp"
    and lo: "2 ^ 52 \<le> (a * 2 ^ p) div b" and hi: "(a * 2 ^ p) div b < 2 ^ 53"
  shows "round64 (of_int a / of_int b) = Fin (of_int (rne (of_int (a * 2 ^ p) / of_int b)) / 2 ^ p)"
proof -
  have e: "rat_of_int a / of_int b * 2 ^ p = of_int (a * 2 ^ p) / of_int b" by simp
  have f: "\<lfloor>rat_of_int (a * 2 ^ p) / of_int b\<rfloor> = (a * 2 ^ p) div b"
    by (rule floor_divide_of_int_eq)
  have x: "0 < rat_of_int a / of_int b" using a b by simp
  from round64_eval [OF x p, unfolded e f, OF lo hi] show ?thesis .
qed

subsection \<open>The walk over the strokes\<close>

lemma activeStrokes_shape:
  "\<exists>k. k \<le> length ps \<and>
     (activeStrokes c dl ps = map (\<lambda>p. Path (path_d p)) (take k ps) \<or>
      (k < length ps \<and>
       (\<exists>part. activeStrokes c dl ps =
          map (\<lambda>p. Path (path_d p)) (take k ps) @
          [DashPath (path_d (ps ! k)) part (path_length (ps ! k))])))"
proof (induction ps arbitrary: dl)
  case Nil
  show ?case by simp
next
  case (Cons p ps)
  show ?case
  proof (cases "js_le (js_add dl (path_length p)) c")
    case True
    from Cons.IH [of "js_add dl (path_length p)"] obtain k where k: "k \<le> length ps"
      and sh: "activeStrokes c (js_add dl (path_length p)) ps = map (\<lambda>p. Path (path_d p)) (take k ps) \<or>
        (k < length ps \<and>
         (\<exists>part. activeStrokes c (js_add dl (path_length p)) ps =
            map (\<lambda>p. Path (path_d p)) (take k ps) @
            [DashPath (path_d (ps ! k)) part (path_length (ps ! k))]))"
      by blast
    show ?thesis
      apply (rule exI [of _ "Suc k"])
      using True k sh by auto
  next
    case False
    show ?thesis
      apply (rule exI [of _ 0])
      using False by auto
  qed
qed

lemma foldl_nonNegative:
  assumes "nonNegative s" and "\<forall>p\<in>set ps. nonNegative (path_length p)"
  shows "nonNegative (foldl (\<lambda>sum p. js_add sum (path_length p)) s ps) \<and>
         js_le s (foldl (\<lambda>sum p. js_add sum (path_length p)) s ps)"
  using assms
proof (induction ps arbitrary: s)
  case Nil
  then show ?case by (simp add: js_le_refl nonNegative_def js_le_def)
next
  case (Cons p ps)
  from Cons.prems have l: "nonNegative (path_length p)" by simp
  from js_add_nonNegative [OF Cons.prems(1) l]
  have n: "nonNegative (js_add s (path_length p))" and le: "js_le s (js_add s (path_length p))"
    by simp_all
  from Cons.IH [OF n] Cons.prems(2)
  have "nonNegative (foldl (\<lambda>sum p. js_add sum (path_length p)) (js_add s (path_length p)) ps)"
    and "js_le (js_add s (path_length p))
           (foldl (\<lambda>sum p. js_add sum (path_length p)) (js_add s (path_length p)) ps)"
    by simp_all
  with le show ?case by (auto intro: js_le_trans)
qed

lemma totalLengthOf_nonNegative:
  "\<forall>p\<in>set ps. nonNegative (path_length p) \<Longrightarrow> nonNegative (totalLengthOf ps)"
  unfolding totalLengthOf_def using foldl_nonNegative [of "Fin 0" ps] by simp

lemma activeStrokes_dash_bounds:
  assumes "DashPath dv a b \<in> set (activeStrokes c s ps)"
    and "nonNegative s" and "\<forall>p\<in>set ps. nonNegative (path_length p)" and "isNumber c"
  shows "js_lt (Fin 0) a \<and> js_le a b \<and> isFinite a \<and> nonNegative b"
  using assms
proof (induction ps arbitrary: s)
  case Nil
  then show ?case by simp
next
  case (Cons p ps)
  from Cons.prems have l: "nonNegative (path_length p)" by simp
  show ?case
  proof (cases "js_le (js_add s (path_length p)) c")
    case True
    with Cons.prems(1) have "DashPath dv a b \<in> set (activeStrokes c (js_add s (path_length p)) ps)"
      by simp
    moreover have "nonNegative (js_add s (path_length p))"
      using js_add_nonNegative [OF Cons.prems(2) l] by simp
    ultimately show ?thesis using Cons.IH Cons.prems(3,4) by simp
  next
    case False
    with Cons.prems(1) have lt: "js_lt s c" and a: "a = js_sub c s" and b: "b = path_length p"
      by (simp_all split: if_splits)
    from part_bounds [OF Cons.prems(2) l Cons.prems(4) lt False]
    show ?thesis unfolding a b using l by (auto simp: js_lt_def)
  qed
qed

lemma revealed_DashPath_bounds:
  assumes "js_lt (Fin 0) a" and "js_le a b" and "isFinite a" and "nonNegative b"
  shows "0 \<le> fv a / fv b \<and> fv a / fv b \<le> 1"
proof (cases "isFinite b")
  case False
  with assms(4) have "fv b = 0" by (auto simp: nonNegative_cases)
  then show ?thesis by simp
next
  case True
  with assms have "0 < fv a" and "fv a \<le> fv b"
    by (auto simp: js_lt_def js_le_def rank_finite)
  then show ?thesis by simp
qed

lemma activeStrokes_revealed_bounds:
  assumes "e \<in> set (activeStrokes c s ps)"
    and "nonNegative s" and "\<forall>p\<in>set ps. nonNegative (path_length p)" and "isNumber c"
  shows "0 \<le> revealed e \<and> revealed e \<le> 1"
proof (cases e)
  case (Path x1)
  then show ?thesis by simp
next
  case (DashPath dv a b)
  with assms(1) have "DashPath dv a b \<in> set (activeStrokes c s ps)" by simp
  from activeStrokes_dash_bounds [OF this assms(2,3,4)] revealed_DashPath_bounds [of a b]
  show ?thesis unfolding DashPath by simp
qed

lemma revealedAt_bounds:
  assumes "nonNegative s" and "\<forall>p\<in>set ps. nonNegative (path_length p)" and "isNumber c"
  shows "0 \<le> revealedAt (activeStrokes c s ps) k \<and> revealedAt (activeStrokes c s ps) k \<le> 1"
proof (cases "k < length (activeStrokes c s ps)")
  case True
  then have "activeStrokes c s ps ! k \<in> set (activeStrokes c s ps)" by simp
  from activeStrokes_revealed_bounds [OF this assms] True show ?thesis
    by (simp add: revealedAt_def)
next
  case False
  then show ?thesis by (simp add: revealedAt_def)
qed

lemma revealedAt_Cons_0: "revealedAt (e # es) 0 = revealed e"
  by (simp add: revealedAt_def)

lemma revealedAt_Cons_Suc: "revealedAt (e # es) (Suc k) = revealedAt es k"
  by (simp add: revealedAt_def)

lemma revealedAt_Nil: "revealedAt [] k = 0"
  by (simp add: revealedAt_def)

lemma revealedAt_single_Suc: "revealedAt [e] (Suc k) = 0"
  by (simp add: revealedAt_def)

lemma activeStrokes_NaN: "activeStrokes NaN s ps = []"
  by (cases ps) (simp_all add: js_le_def js_lt_def)

lemma activeStrokes_mono:
  assumes "c = NaN \<or> js_le c c'" and "isNumber c" and "isNumber c'"
    and "nonNegative s" and "\<forall>p\<in>set ps. nonNegative (path_length p)"
  shows "revealedAt (activeStrokes c s ps) k \<le> revealedAt (activeStrokes c' s ps) k"
proof (cases "c = NaN")
  case True
  from revealedAt_bounds [OF assms(4,5,3)] show ?thesis
    unfolding True activeStrokes_NaN by (simp add: revealedAt_Nil)
next
  case False
  with assms(1) have cc: "js_le c c'" by simp
  show ?thesis
    using assms(4,5)
  proof (induction ps arbitrary: s k)
    case Nil
    show ?case by (simp add: revealedAt_Nil)
  next
    case (Cons p ps)
    let ?l = "path_length p"
    from Cons.prems have l: "nonNegative ?l" and rest: "\<forall>p\<in>set ps. nonNegative (path_length p)"
      by simp_all
    from js_add_nonNegative [OF Cons.prems(1) l] have n: "nonNegative (js_add s ?l)" by simp
    show ?case
    proof (cases "js_le (js_add s ?l) c")
      case True
      from True cc have T': "js_le (js_add s ?l) c'" by (rule js_le_trans)
      show ?thesis
        using True T' Cons.IH [OF n rest]
        by (cases k) (simp_all add: revealedAt_Cons_0 revealedAt_Cons_Suc)
    next
      case False
      note F = False
      have b: "0 \<le> revealedAt (activeStrokes c s (p # ps)) k \<and>
               revealedAt (activeStrokes c s (p # ps)) k \<le> 1"
        by (rule revealedAt_bounds [OF Cons.prems assms(2)])
      have b': "0 \<le> revealedAt (activeStrokes c' s (p # ps)) k"
        using revealedAt_bounds [OF Cons.prems assms(3)] by simp
      have z: "k \<noteq> 0 \<Longrightarrow> revealedAt (activeStrokes c s (p # ps)) k = 0"
        using F by (cases k) (simp_all add: revealedAt_def)
      show ?thesis
      proof (cases "js_le (js_add s ?l) c'")
        case True
        then have "revealedAt (activeStrokes c' s (p # ps)) 0 = 1"
          by (simp add: revealedAt_Cons_0)
        with b b' z show ?thesis by (cases "k = 0") auto
      next
        case False
        show ?thesis
        proof (cases "js_lt s c")
          case nlt: False
          with F have "activeStrokes c s (p # ps) = []" by simp
          with b' show ?thesis by (simp add: revealedAt_Nil)
        next
          case lt: True
          from lt cc have lt': "js_lt s c'" by (rule js_lt_le_trans)
          from part_bounds [OF Cons.prems(1) l assms(2) lt F]
          obtain y where y: "c = Fin y" "js_sub c s = Fin (nearest (y - fv s))" by auto
          from part_bounds [OF Cons.prems(1) l assms(3) lt' False]
          obtain y' where y': "c' = Fin y'" "js_sub c' s = Fin (nearest (y' - fv s))" by auto
          from cc y y' have "y \<le> y'" by (simp add: js_le_def)
          then have "nearest (y - fv s) \<le> nearest (y' - fv s)" by (intro nearest_mono) simp
          moreover have "0 \<le> fv ?l" using l by (auto simp: nonNegative_cases)
          ultimately have "nearest (y - fv s) / fv ?l \<le> nearest (y' - fv s) / fv ?l"
            by (rule divide_right_mono)
          then show ?thesis
            using F False lt lt' y y'
            by (cases k) (simp_all add: revealedAt_Cons_0 revealedAt_single_Suc)
        qed
      qed
    qed
  qed
qed

lemma activeStrokes_full_mono:
  assumes "js_le c c'" and "fullyDrawn (activeStrokes c s ps) k"
  shows "fullyDrawn (activeStrokes c' s ps) k"
  using assms(2)
proof (induction ps arbitrary: s k)
  case Nil
  then show ?case by (simp add: fullyDrawn_def)
next
  case (Cons p ps)
  show ?case
  proof (cases "js_le (js_add s (path_length p)) c")
    case True
    from True assms(1) have T': "js_le (js_add s (path_length p)) c'" by (rule js_le_trans)
    show ?thesis
    proof (cases k)
      case 0
      then show ?thesis using T' by (simp add: fullyDrawn_def)
    next
      case (Suc k')
      with Cons.prems True have "fullyDrawn (activeStrokes c (js_add s (path_length p)) ps) k'"
        by (simp add: fullyDrawn_def)
      from Cons.IH [OF this] show ?thesis
        using T' Suc by (simp add: fullyDrawn_def)
    qed
  next
    case False
    with Cons.prems show ?thesis
      by (auto simp: fullyDrawn_def split: if_splits)
  qed
qed

lemma fullyDrawn_NaN: "\<not> fullyDrawn (activeStrokes NaN s ps) k"
  by (simp add: activeStrokes_NaN fullyDrawn_def)

text \<open>At a progress that is not below the sum of all lengths, every stroke is drawn in
  full.\<close>

lemma activeStrokes_all:
  assumes "nonNegative s" and "\<forall>p\<in>set ps. nonNegative (path_length p)"
    and "js_le (foldl (\<lambda>sum p. js_add sum (path_length p)) s ps) c"
  shows "activeStrokes c s ps = map (\<lambda>p. Path (path_d p)) ps"
  using assms
proof (induction ps arbitrary: s)
  case Nil
  show ?case by simp
next
  case (Cons p ps)
  from Cons.prems have l: "nonNegative (path_length p)" and rest: "\<forall>p\<in>set ps. nonNegative (path_length p)"
    by simp_all
  from js_add_nonNegative [OF Cons.prems(1) l] have n: "nonNegative (js_add s (path_length p))"
    by simp
  from foldl_nonNegative [OF n rest] Cons.prems(3)
  have "js_le (js_add s (path_length p)) c" by (auto intro: js_le_trans)
  moreover from Cons.IH [OF n rest] Cons.prems(3)
  have "activeStrokes c (js_add s (path_length p)) ps = map (\<lambda>p. Path (path_d p)) ps" by simp
  ultimately show ?case by simp
qed

text \<open>At a progress equal to the running sum after \<open>k\<close> strokes, the first \<open>k\<close> strokes at
  least are drawn in full and no stroke is drawn in part.\<close>

lemma activeStrokes_boundary:
  assumes "nonNegative s" and "\<forall>p\<in>set ps. nonNegative (path_length p)"
    and "js_eq c (foldl (\<lambda>sum p. js_add sum (path_length p)) s (take k ps))"
  shows "\<exists>m. min k (length ps) \<le> m \<and> m \<le> length ps \<and>
           activeStrokes c s ps = map (\<lambda>p. Path (path_d p)) (take m ps)"
  using assms
proof (induction ps arbitrary: s k)
  case Nil
  show ?case by simp
next
  case (Cons p ps)
  let ?s' = "js_add s (path_length p)"
  from Cons.prems have l: "nonNegative (path_length p)" and rest: "\<forall>p\<in>set ps. nonNegative (path_length p)"
    by simp_all
  from js_add_nonNegative [OF Cons.prems(1) l] have n: "nonNegative ?s'" and le: "js_le s ?s'"
    by simp_all
  show ?case
  proof (cases k)
    case 0
    with Cons.prems(3) have eq: "js_le c s" "js_le s c" by (simp_all add: js_eq_def)
    show ?thesis
    proof (cases "js_le ?s' c")
      case True
      have "js_eq c (foldl (\<lambda>sum p. js_add sum (path_length p)) ?s' (take 0 ps))"
        using True eq le by (auto simp: js_eq_def intro: js_le_trans)
      from Cons.IH [OF n rest this] obtain m where
        "m \<le> length ps" "activeStrokes c ?s' ps = map (\<lambda>p. Path (path_d p)) (take m ps)"
        by auto
      then show ?thesis
        using True 0 by (intro exI [of _ "Suc m"]) simp
    next
      case False
      moreover have "\<not> js_lt s c" using eq(1) by (auto dest: js_lt_not_le)
      ultimately show ?thesis using 0 by (intro exI [of _ 0]) simp
    qed
  next
    case (Suc k')
    with Cons.prems(3)
    have eq: "js_eq c (foldl (\<lambda>sum p. js_add sum (path_length p)) ?s' (take k' ps))" by simp
    have "\<forall>p\<in>set (take k' ps). nonNegative (path_length p)"
      using rest by (auto dest: in_set_takeD)
    from foldl_nonNegative [OF n this] eq have T: "js_le ?s' c"
      by (auto simp: js_eq_def intro: js_le_trans)
    from Cons.IH [OF n rest eq] obtain m where
      "min k' (length ps) \<le> m" "m \<le> length ps"
      "activeStrokes c ?s' ps = map (\<lambda>p. Path (path_d p)) (take m ps)"
      by auto
    then show ?thesis
      using T Suc by (intro exI [of _ "Suc m"]) simp
  qed
qed

subsection \<open>Progress\<close>

lemma isNumber_progress:
  "isNumber L \<Longrightarrow> isNumber (currentTotalProgressAt frame tf L)"
  by (simp add: currentTotalProgressAt_def)

lemma js_le_of_nat: "js_le (Fin (of_nat i)) (Fin (of_nat j)) = (i \<le> j)"
  by (simp add: js_le_def)

lemma js_lt_of_nat: "js_lt (Fin (of_nat i)) (Fin (of_nat j)) = (i < j)"
  by (simp add: js_lt_def)

lemma progress_mono:
  assumes L: "nonNegative L" and ij: "i \<le> j"
  shows "currentTotalProgressAt (Fin (of_nat i)) tf L = NaN \<or>
         js_le (currentTotalProgressAt (Fin (of_nat i)) tf L)
               (currentTotalProgressAt (Fin (of_nat j)) tf L)"
proof (cases "tf = NaN")
  case True
  then show ?thesis
    by (simp add: currentTotalProgressAt_def js_ge_def js_le_def js_div_def js_mul_def)
next
  case tf: False
  from L have Ln: "L \<noteq> NaN" by (auto simp: nonNegative_cases)
  have fij: "js_le (Fin (of_nat i)) (Fin (of_nat j))" using ij by (simp add: js_le_of_nat)
  show ?thesis
  proof (cases "js_le tf (Fin (of_nat i))")
    case True
    then have "js_le tf (Fin (of_nat j))" using fij by (rule js_le_trans)
    with True Ln show ?thesis by (simp add: currentTotalProgressAt_def js_ge_def js_le_refl)
  next
    case False
    with tf have lt: "js_lt (Fin (of_nat i)) tf" by (intro js_not_le) simp_all
    from js_div_unit [OF lt] obtain u where
      u: "js_div (Fin (of_nat i)) tf = Fin u" "0 \<le> u" "u \<le> 1" by blast
    show ?thesis
    proof (cases "js_le tf (Fin (of_nat j))")
      case True
      with False u js_mul_unit_le [OF u(2,3) L] show ?thesis
        by (simp add: currentTotalProgressAt_def js_ge_def)
    next
      case F': False
      with tf have lt': "js_lt (Fin (of_nat j)) tf" by (intro js_not_le) simp_all
      from js_div_unit [OF lt'] obtain u' where
        u': "js_div (Fin (of_nat j)) tf = Fin u'" by blast
      from js_div_mono [OF ij lt'] u u' have "u \<le> u'" by (simp add: js_le_def)
      from js_mul_mono [OF u(2) this L] False F' u u' show ?thesis
        by (simp add: currentTotalProgressAt_def js_ge_def)
    qed
  qed
qed

subsection \<open>The frame loop\<close>

lemma js_add_1: "Suc k \<le> 2 ^ 53 \<Longrightarrow> js_add (Fin (of_nat k)) (Fin 1) = Fin (of_nat (Suc k))"
proof -
  assume k: "Suc k \<le> 2 ^ 53"
  have e: "rat_of_nat k + 1 = of_nat (Suc k)" by simp
  have "0 \<le> rat_of_nat k" by simp
  then have nz: "rat_of_nat k + 1 \<noteq> 0" by linarith
  have "js_add (Fin (of_nat k)) (Fin 1) = round64 (rat_of_nat k + 1)"
    using nz by (simp add: js_add_def)
  also have "\<dots> = round64 (of_nat (Suc k))" by (simp only: e)
  also have "\<dots> = Fin (of_nat (Suc k))" using k by (rule round64_of_nat)
  finally show ?thesis .
qed

lemma frameLoop_run:
  assumes n: "n \<le> 2 ^ 53" and r: "\<forall>i<n. render (Fin (of_nat i)) = Inr (buf i)"
    and b: "\<forall>i<n. js_lt (Fin (of_nat i)) bound" and e: "\<not> js_lt (Fin (of_nat n)) bound"
  shows "k \<le> n \<Longrightarrow>
         frameLoop render bound (Fin (of_nat k)) added = Some (Inr (added @ map buf [k..<n]))"
proof (induction "n - k" arbitrary: k added)
  case 0
  then have "k = n" by simp
  with e show ?case by (subst frameLoop.simps) simp
next
  case (Suc d)
  then have kn: "k < n" and d: "d = n - Suc k" and le: "Suc k \<le> n" by simp_all
  from kn b have lt: "js_lt (Fin (of_nat k)) bound" by simp
  from kn r have rk: "render (Fin (of_nat k)) = Inr (buf k)" by simp
  from le n have "Suc k \<le> 2 ^ 53" by simp
  then have nx: "js_add (Fin (of_nat k)) (Fin 1) = Fin (of_nat (Suc k))" by (rule js_add_1)
  have "frameLoop render bound (Fin (of_nat k)) added =
        frameLoop render bound (Fin (of_nat (Suc k))) (added @ [buf k])"
    by (subst frameLoop.simps) (simp add: lt rk nx del: of_nat_Suc)
  also have "\<dots> = Some (Inr ((added @ [buf k]) @ map buf [Suc k..<n]))"
    using d le by (rule Suc.hyps(1))
  also have "(added @ [buf k]) @ map buf [Suc k..<n] = added @ map buf [k..<n]"
    using kn by (simp add: upt_conv_Cons)
  finally show ?case .
qed

lemma frameLoop_none:
  "\<not> js_lt (Fin 0) bound \<Longrightarrow> frameLoop render bound (Fin 0) [] = Some (Inr [])"
  by (subst frameLoop.simps) simp


lemma js_add_of_nat:
  "n + m \<le> 2 ^ 53 \<Longrightarrow> js_add (Fin (of_nat n)) (Fin (of_nat m)) = Fin (of_nat (n + m))"
proof -
  assume nm: "n + m \<le> 2 ^ 53"
  have e: "rat_of_nat n + rat_of_nat m = of_nat (n + m)" by simp
  show ?thesis
  proof (cases "n + m = 0")
    case True
    then show ?thesis by (simp add: js_add_def zero_def)
  next
    case False
    then have "rat_of_nat (n + m) \<noteq> 0" by (metis of_nat_eq_0_iff)
    then show ?thesis
      using round64_of_nat [OF nm] unfolding js_add_def by (simp add: e zero_def del: of_nat_add)
  qed
qed

subsection \<open>\<open>generateGif\<close>\<close>

lemma generateGif_frames:
  assumes ne: "extractPaths (selectPaths svgContent) \<noteq> []"
    and mp: "makePathProps getTotalLength (extractPaths (selectPaths svgContent)) = Inr pathProps"
    and tf: "totalFramesOf (animationDuration opts pathProps) (opt_fps opts) = Fin (of_nat n)"
    and fps: "opt_fps opts = Fin (of_nat m)"
    and nm: "n + m \<le> 2 ^ 53"
    and sh: "\<forall>i<n + m. sharp (frameRequest (extractPaths (selectPaths svgContent)) pathProps
               (totalLengthOf pathProps) (Fin (of_nat n)) width height opts (Fin (of_nat i))) = Inr (buf i)"
  shows "generateGif selectPaths getTotalLength sharp svgContent outputPath width height opts =
     Some (Finished \<lparr>gif_path = outputPath, gif_width = width, gif_height = height,
                     gif_repeat = Fin 0, gif_delay = js_div (Fin 1000) (Fin (of_nat m)),
                     gif_quality = Fin 10, gif_frames = map buf [0..<n + m]\<rparr>)"
proof -
  let ?render = "\<lambda>frame. sharp (frameRequest (extractPaths (selectPaths svgContent)) pathProps
               (totalLengthOf pathProps) (Fin (of_nat n)) width height opts frame)"
  have b: "js_add (Fin (of_nat n)) (Fin (of_nat m)) = Fin (of_nat (n + m))"
    using nm by (rule js_add_of_nat)
  have "frameLoop ?render (Fin (of_nat (n + m))) (Fin (of_nat 0)) [] =
        Some (Inr ([] @ map buf [0..<n + m]))"
    using nm sh by (intro frameLoop_run) (simp_all add: js_lt_of_nat del: of_nat_add)
  then have l: "frameLoop ?render (Fin (of_nat (n + m))) (Fin 0) [] = Some (Inr (map buf [0..<n + m]))"
    by simp
  from tf fps have tf': "totalFramesOf (animationDuration opts pathProps) (Fin (of_nat m)) = Fin (of_nat n)"
    by simp
  show ?thesis
    unfolding generateGif_def Let_def using ne
    by (simp add: mp tf' fps b l del: of_nat_add)
qed

lemma generateGif_no_frames:
  assumes ne: "extractPaths (selectPaths svgContent) \<noteq> []"
    and mp: "makePathProps getTotalLength (extractPaths (selectPaths svgContent)) = Inr pathProps"
    and nb: "\<not> js_lt (Fin 0) (js_add (totalFramesOf (animationDuration opts pathProps) (opt_fps opts))
                                     (opt_fps opts))"
  shows "generateGif selectPaths getTotalLength sharp svgContent outputPath width height opts =
     Some (Finished \<lparr>gif_path = outputPath, gif_width = width, gif_height = height,
                     gif_repeat = Fin 0, gif_delay = js_div (Fin 1000) (opt_fps opts),
                     gif_quality = Fin 10, gif_frames = []\<rparr>)"
  unfolding generateGif_def Let_def using ne
  by (simp add: mp frameLoop_none [OF nb])


subsection \<open>Signs\<close>









subsection \<open>The formula of the progress\<close>



lemma progress_hold: "js_ge frame tf \<Longrightarrow> currentTotalProgressAt frame tf L = L"
  by (simp add: currentTotalProgressAt_def)




subsection \<open>Strings\<close>

lemma indexOf_prefix: "prefix pat s \<Longrightarrow> indexOf s pat = 0"
  by (cases s) simp_all

lemma indexOf_ge: "- 1 \<le> indexOf s pat"
  by (induction s) (simp_all add: Let_def)

lemma includesStr_indexOf: "includesStr s pat \<longleftrightarrow> 0 \<le> indexOf s pat"
  using indexOf_ge [of _ pat]
  by (induction s) (auto simp: Let_def)

lemma indexOf_not_includes: "\<not> includesStr s pat \<Longrightarrow> indexOf s pat = - 1"
  using indexOf_ge [of s pat] by (simp add: includesStr_indexOf)

lemma indexOf_drop:
  "0 \<le> indexOf s pat \<Longrightarrow> prefix pat (drop (nat (indexOf s pat)) s)"
proof (induction s)
  case Nil
  then show ?case by (simp split: if_splits)
next
  case (Cons c cs)
  show ?case
  proof (cases "prefix pat (c # cs)")
    case True
    then show ?thesis by simp
  next
    case False
    with Cons.prems have nneg: "0 \<le> indexOf cs pat"
      by (simp add: Let_def split: if_splits)
    then have "nat (indexOf cs pat + 1) = Suc (nat (indexOf cs pat))" by simp
    with False nneg Cons.IH [OF nneg] show ?thesis by (simp add: Let_def)
  qed
qed

lemma replace_prefix: "prefix pat s \<Longrightarrow> replace s pat rep = rep @ drop (length pat) s"
  by (cases s) simp_all

lemma replace_not_includes: "\<not> includesStr s pat \<Longrightarrow> replace s pat rep = s"
  by (induction s) auto

lemma includesStr_append: "includesStr s pat \<Longrightarrow> includesStr (s @ t) pat"
proof (induction s)
  case Nil
  then show ?case by (cases t) simp_all
next
  case (Cons c cs)
  then show ?case using prefix_prefix [of pat "c # cs" t] by auto
qed

lemma kvg_in_replacement:
  \<open>includesStr ''<svg xmlns:kvg="http://kanjivg.tagaini.net"'' ''xmlns:kvg''\<close>
  by simp

lemma svg_prefix_replacement:
  \<open>prefix ''<svg'' (''<svg xmlns:kvg="http://kanjivg.tagaini.net"'' @ t)\<close>
  by simp

lemma preprocessSvg_fixed:
  "prefix ''<svg'' s \<Longrightarrow> includesStr s ''xmlns:kvg'' \<Longrightarrow> preprocessSvg s = s"
  by (simp add: preprocessSvg_def indexOf_prefix)

lemma preprocessSvg_no_svg:
  "\<not> includesStr s ''<svg'' \<Longrightarrow> preprocessSvg s = s"
  by (simp add: preprocessSvg_def Let_def indexOf_not_includes replace_not_includes)

lemma preprocessSvg_with_svg:
  assumes "includesStr s ''<svg''"
  shows "prefix ''<svg'' (preprocessSvg s) \<and> includesStr (preprocessSvg s) ''xmlns:kvg''"
proof -
  let ?i = "indexOf s ''<svg''"
  let ?s1 = "if ?i > 0 then substring s ?i else s"
  from assms have i: "0 \<le> ?i" by (simp add: includesStr_indexOf)
  have "prefix ''<svg'' (drop (nat ?i) s)" using i by (rule indexOf_drop)
  then have p1: "prefix ''<svg'' ?s1"
    using i by (cases "?i = 0") (simp_all add: substring_def)
  show ?thesis
  proof (cases "includesStr ?s1 ''xmlns:kvg''")
    case True
    then have "preprocessSvg s = ?s1" by (simp add: preprocessSvg_def Let_def)
    with p1 True show ?thesis by simp
  next
    case False
    then have eq: \<open>preprocessSvg s =
        ''<svg xmlns:kvg="http://kanjivg.tagaini.net"'' @ drop (length ''<svg'') ?s1\<close>
      using replace_prefix [OF p1] by (simp add: preprocessSvg_def Let_def)
    show ?thesis
      unfolding eq
      using svg_prefix_replacement includesStr_append [OF kvg_in_replacement]
      by blast
  qed
qed

lemma preprocessSvg_twice: "preprocessSvg (preprocessSvg s) = preprocessSvg s"
proof (cases "includesStr s ''<svg''")
  case True
  from preprocessSvg_with_svg [OF True] show ?thesis
    by (simp add: preprocessSvg_fixed)
next
  case False
  then show ?thesis by (simp add: preprocessSvg_no_svg)
qed

subsection \<open>Evaluation of the operations and examples\<close>

lemma js_add_Fin: "js_add (Fin x) (Fin y) = (if x + y = 0 then Fin 0 else round64 (x + y))"
  by (auto simp: js_add_def zero_def)

lemma js_sub_Fin: "js_sub (Fin x) (Fin y) = (if x - y = 0 then Fin 0 else round64 (x - y))"
  by (auto simp: js_sub_def js_add_def zero_def)

lemma js_mul_Fin:
  "js_mul (Fin x) (Fin y) = (if x * y = 0 then zero ((x < 0) \<noteq> (y < 0)) else round64 (x * y))"
  by (simp add: js_mul_def)

lemma js_div_Fin:
  "js_div (Fin x) (Fin y) =
     (if y = 0 then (if x = 0 then NaN else inf ((x < 0) \<noteq> (y < 0)))
      else if x = 0 then zero ((x < 0) \<noteq> (y < 0)) else round64 (x / y))"
  by (simp add: js_div_def)

lemma js_le_Fin: "js_le (Fin x) (Fin y) = (x \<le> y)"
  by (simp add: js_le_def)

lemma js_lt_Fin: "js_lt (Fin x) (Fin y) = (x < y)"
  by (simp add: js_lt_def)

lemmas js_Fin = js_add_Fin js_sub_Fin js_mul_Fin js_div_Fin js_le_Fin js_lt_Fin round64_numeral
  zero_def

lemma q_3_7: "js_div (Fin 3) (Fin 7) = Fin (7720456504063707 / 18014398509481984)"
proof -
  have "round64 (of_int 3 / of_int 7) = Fin (7720456504063707 / 2 ^ 54)"
    by (subst round64_frac [of 3 7 54]) (simp_all add: sub_exp_def rne_numeral_frac rne_numeral)
  then show ?thesis by (simp add: js_div_def)
qed

lemma p_3_7: "js_mul (Fin (7720456504063707 / 18014398509481984)) (Fin 35) = Fin 15"
proof -
  have "round64 (of_int (7720456504063707 * 35) / of_int (2 ^ 54)) = Fin 15"
    by (subst round64_frac [of _ _ 49]) (simp_all add: sub_exp_def rne_numeral_frac rne_numeral)
  then show ?thesis by (simp add: js_mul_def)
qed

lemma q_2_7: "js_div (Fin 2) (Fin 7) = Fin (2573485501354569 / 9007199254740992)"
proof -
  have "round64 (of_int 2 / of_int 7) = Fin (2573485501354569 / 2 ^ 53)"
    by (subst round64_frac [of 2 7 54]) (simp_all add: sub_exp_def rne_numeral_frac rne_numeral)
  then show ?thesis by (simp add: js_div_def)
qed

lemma p_2_7: "js_mul (Fin (2573485501354569 / 9007199254740992)) (Fin 35) = Fin 10"
proof -
  have "round64 (of_int (2573485501354569 * 35) / of_int (2 ^ 53)) = Fin 10"
    by (subst round64_frac [of _ _ 49]) (simp_all add: sub_exp_def rne_numeral_frac rne_numeral)
  then show ?thesis by (simp add: js_mul_def)
qed

lemma example_total: "totalLengthOf strokes3 = Fin 35"
  by (simp add: totalLengthOf_def strokes3_def js_Fin)

lemma example_nonNegative: "\<forall>p\<in>set strokes3. nonNegative (path_length p)"
  using dbl_of_nat [of 10] dbl_of_nat [of 20] dbl_of_nat [of 5]
  by (simp add: strokes3_def nonNegative_def js_le_def)

lemma example_progress_3: "currentTotalProgressAt (Fin 3) (Fin 7) (Fin 35) = Fin 15"
  by (simp add: currentTotalProgressAt_def js_ge_def js_le_Fin q_3_7 p_3_7)

lemma example_progress_2: "currentTotalProgressAt (Fin 2) (Fin 7) (Fin 35) = Fin 10"
  by (simp add: currentTotalProgressAt_def js_ge_def js_le_Fin q_2_7 p_2_7)

lemma svg_active_frameSvg:
  "svg_active (frameSvg paths pathProps totalLength totalFrames opts frame) =
     activeStrokes (currentTotalProgressAt frame totalFrames totalLength) (Fin 0) pathProps"
  by (simp add: frameSvg_def Let_def)

lemma example_active_3:
  "svg_active (frameSvg paths strokes3 (totalLengthOf strokes3) (Fin 7) opts (Fin 3)) =
     [Path ''M0,0 L10,0'', DashPath ''M0,0 L20,0'' (Fin 5) (Fin 20)]"
  unfolding svg_active_frameSvg example_total example_progress_3
  by (simp add: strokes3_def js_Fin)

lemma example_active_2:
  "svg_active (frameSvg paths strokes3 (totalLengthOf strokes3) (Fin 7) opts (Fin 2)) =
     [Path ''M0,0 L10,0'']"
  unfolding svg_active_frameSvg example_total example_progress_2
  by (simp add: strokes3_def js_Fin)

lemma tie_total: "totalLengthOf tieStrokes = Fin (9007199254740991 / 281474976710656)"
proof -
  have 1: "round64 (of_int 4503599627370495 / of_int (2 ^ 50)) = Fin (4503599627370495 / 2 ^ 50)"
    by (subst round64_frac [of _ _ 51]) (simp_all add: sub_exp_def rne_numeral_frac rne_numeral)
  have 2: "round64 (of_int 18014398509481983 / of_int (2 ^ 50)) = Fin 16"
    by (subst round64_frac [of _ _ 49]) (simp_all add: sub_exp_def rne_numeral_frac rne_numeral)
  have 3: "round64 (of_int 9007199254740991 / of_int (2 ^ 48)) = Fin (9007199254740991 / 2 ^ 48)"
    by (subst round64_frac [of _ _ 48]) (simp_all add: sub_exp_def rne_numeral_frac rne_numeral)
  from 1 2 3 show ?thesis
    by (simp add: totalLengthOf_def tieStrokes_def js_add_Fin)
qed

lemma tie_progress:
  "currentTotalProgressAt (Fin 3) (Fin 6) (Fin (9007199254740991 / 281474976710656)) =
     Fin (9007199254740991 / 562949953421312)"
proof -
  have 1: "round64 (of_int 1 / of_int 2) = Fin (1 / 2)"
    by (subst round64_frac [of _ _ 53]) (simp_all add: sub_exp_def rne_numeral_frac rne_numeral)
  have 2: "round64 (of_int 9007199254740991 / of_int (2 ^ 49)) = Fin (9007199254740991 / 2 ^ 49)"
    by (subst round64_frac [of _ _ 49]) (simp_all add: sub_exp_def rne_numeral_frac rne_numeral)
  from 1 2 show ?thesis
    by (simp add: currentTotalProgressAt_def js_ge_def js_le_Fin js_div_Fin js_mul_Fin)
qed

lemma relative_duration:
  assumes "N < 2 ^ 32"
  shows "js_add (Fin 500) (js_mul (Fin (of_nat N)) (Fin 200)) = Fin (500 + of_nat N * 200)"
proof -
  have "N * 200 < 2 ^ 32 * 200" using assms by simp
  also have "\<dots> \<le> (2::nat) ^ 53 - 500" by simp
  finally have b: "N * 200 + 500 \<le> 2 ^ 53" by simp
  then have b1: "N * 200 \<le> 2 ^ 53" by simp
  have m: "js_mul (Fin (of_nat N)) (Fin 200) = Fin (of_nat (N * 200))"
  proof (cases "N = 0")
    case True
    then show ?thesis by (simp add: js_mul_Fin zero_def)
  next
    case False
    then have "rat_of_nat N * 200 \<noteq> 0" by simp
    then have "js_mul (Fin (of_nat N)) (Fin 200) = round64 (rat_of_nat N * 200)"
      by (simp add: js_mul_Fin)
    also have "rat_of_nat N * 200 = of_nat (N * 200)" by simp
    also have "round64 (of_nat (N * 200)) = Fin (of_nat (N * 200))" using b1 by (rule round64_of_nat)
    finally show ?thesis .
  qed
  have e: "500 + rat_of_nat (N * 200) = of_nat (N * 200 + 500)" by simp
  have "0 \<le> rat_of_nat (N * 200)" by (rule of_nat_0_le_iff)
  then have nz: "500 + rat_of_nat (N * 200) \<noteq> 0" by linarith
  have "js_add (Fin 500) (Fin (of_nat (N * 200))) = round64 (500 + rat_of_nat (N * 200))"
    using nz by (simp only: js_add_Fin if_False)
  also have "\<dots> = round64 (of_nat (N * 200 + 500))" by (simp only: e)
  also have "\<dots> = Fin (of_nat (N * 200 + 500))" using b by (rule round64_of_nat)
  also have "\<dots> = Fin (500 + of_nat N * 200)" by simp
  finally show ?thesis unfolding m .
qed

lemma example_paths:
  "extractPaths (exampleDoc svgContent) =
     [\<lparr>path_d = ''M0,0 L10,0'', path_id = Some ''s1''\<rparr>,
      \<lparr>path_d = ''M0,0 L20,0'', path_id = Some ''s2''\<rparr>,
      \<lparr>path_d = ''M0,0 L5,0'', path_id = None\<rparr>]"
  by (simp add: exampleDoc_def)

lemma example_paths_ne: "extractPaths (exampleDoc svgContent) \<noteq> []"
  by (simp add: example_paths)

lemma example_pathProps:
  "makePathProps exampleMeasure (extractPaths (exampleDoc svgContent)) = Inr strokes3"
  by (simp add: example_paths exampleMeasure_def strokes3_def)

lemma exampleSharp_ok:
  "exampleSharp (frameRequest paths pathProps totalLength totalFrames (Fin 200) (Fin 200) opts frame) =
     Inr (frameRequest paths pathProps totalLength totalFrames (Fin 200) (Fin 200) opts frame)"
  by (simp add: exampleSharp_def frameRequest_def)


lemma q_2200: "js_div (Fin 2200) (Fin 1000) = Fin (2476979795053773 / 1125899906842624)"
proof -
  have "round64 (of_int 11 / of_int 5) = Fin (2476979795053773 / 2 ^ 50)"
    by (subst round64_frac [of _ _ 51]) (simp_all add: sub_exp_def rne_numeral_frac rne_numeral)
  then show ?thesis by (simp add: js_div_def)
qed

lemma p_2200:
  "js_mul (Fin (2476979795053773 / 1125899906842624)) (Fin 25) =
     Fin (7740561859543041 / 140737488355328)"
proof -
  have "round64 (of_int (2476979795053773 * 25) / of_int (2 ^ 50)) = Fin (7740561859543041 / 2 ^ 47)"
    by (subst round64_frac [of _ _ 47]) (simp_all add: sub_exp_def rne_numeral_frac rne_numeral)
  then show ?thesis by (simp add: js_mul_def)
qed

lemma frames_2200: "js_ceil (js_mul (js_div (Fin 2200) (Fin 1000)) (Fin 25)) = Fin 56"
  unfolding q_2200 p_2200 by (simp add: ceiling_eq_iff)

lemma frames_2000: "totalFramesOf (Fin 2000) (Fin 20) = Fin 40"
  by (simp add: totalFramesOf_def js_Fin)

lemma frameRequest_hold:
  assumes "js_ge frame totalFrames"
  shows "frameRequest paths pathProps totalLength totalFrames width height opts frame =
         frameRequest paths pathProps totalLength totalFrames width height opts totalFrames \<and>
         currentTotalProgressAt frame totalFrames totalLength = totalLength"
proof -
  from assms have "totalFrames \<noteq> NaN" by (simp add: js_ge_def js_le_def)
  then have "js_ge totalFrames totalFrames" by (simp add: js_ge_def js_le_refl)
  with assms show ?thesis
    by (simp add: frameRequest_def frameSvg_def Let_def currentTotalProgressAt_def)
qed

lemma hold_all:
  assumes "\<forall>p\<in>set pathProps. nonNegative (path_length p)"
    and "js_ge frame totalFrames"
  shows "svg_active (frameSvg paths pathProps (totalLengthOf pathProps) totalFrames opts frame) =
         map (\<lambda>p. Path (path_d p)) pathProps"
proof -
  have "nonNegative (totalLengthOf pathProps)" using assms(1) by (rule totalLengthOf_nonNegative)
  then have "totalLengthOf pathProps \<noteq> NaN" by (auto simp: nonNegative_cases)
  then have "js_le (foldl (\<lambda>sum p. js_add sum (path_length p)) (Fin 0) pathProps)
                   (totalLengthOf pathProps)"
    unfolding totalLengthOf_def by (rule js_le_refl)
  from activeStrokes_all [OF nonNegative_0 assms(1) this] assms(2) show ?thesis
    by (simp add: svg_active_frameSvg progress_hold)
qed







section \<open>The claims\<close>

subsection \<open>Empty stroke set\<close>

text \<open>
  Claim C1, as the code has it. For an empty stroke set, that is, when no \<open>path\<close> element
  with a non-empty \<open>d\<close> is extracted, \<open>generateGif\<close> returns at once: nothing fails and
  nothing is divided, but no timing plan is made, no encoder is set up, no frame is emitted
  and no output is produced.
\<close>

theorem empty_stroke_set_no_output:
  "extractPaths (selectPaths svgContent) = [] \<Longrightarrow>
   generateGif selectPaths getTotalLength sharp svgContent outputPath width height opts =
     Some NoOutput"
  by (simp add: generateGif_def)

theorem empty_stroke_set_no_output_witness:
  "extractPaths (emptyDoc ''<svg/>'') = [] \<and>
   generateGif emptyDoc exampleMeasure exampleSharp ''<svg/>'' ''out.gif'' (Fin 200) (Fin 200)
     defaultModeOptions = Some NoOutput"
proof -
  have e: "extractPaths (emptyDoc ''<svg/>'') = []"
    by (simp add: emptyDoc_def)
  from e empty_stroke_set_no_output [of emptyDoc "''<svg/>''", OF e]
  show ?thesis by blast
qed

theorem empty_stroke_set_counterexample:
  "generateGif emptyDoc exampleMeasure exampleSharp ''<svg></svg>'' ''out.gif'' (Fin 200) (Fin 200)
     defaultModeOptions = Some NoOutput"
  by (simp add: generateGif_def emptyDoc_def)

subsection \<open>Reveal order\<close>

text \<open>
  Claim C2. For every stroke set and every frame index, the group of active strokes of the
  frame follows the stroke order: it is the first \<open>k\<close> strokes drawn in full, followed by at
  most one stroke drawn in part, which is stroke \<open>k\<close> itself; every later stroke is absent.
\<close>

theorem reveal_order:
  "\<exists>k. k \<le> length pathProps \<and>
     (svg_active (frameSvg paths pathProps totalLength totalFrames opts frame) =
        map (\<lambda>p. Path (path_d p)) (take k pathProps) \<or>
      (k < length pathProps \<and>
       (\<exists>part. svg_active (frameSvg paths pathProps totalLength totalFrames opts frame) =
          map (\<lambda>p. Path (path_d p)) (take k pathProps) @
          [DashPath (path_d (pathProps ! k)) part (path_length (pathProps ! k))])))"
  unfolding svg_active_frameSvg by (rule activeStrokes_shape)

theorem reveal_order_witness:
  "\<exists>k. k \<le> length strokes3 \<and>
     (svg_active (frameSvg [] strokes3 (Fin 35) (Fin 7) defaultModeOptions (Fin 3)) =
        map (\<lambda>p. Path (path_d p)) (take k strokes3) \<or>
      (k < length strokes3 \<and>
       (\<exists>part. svg_active (frameSvg [] strokes3 (Fin 35) (Fin 7) defaultModeOptions (Fin 3)) =
          map (\<lambda>p. Path (path_d p)) (take k strokes3) @
          [DashPath (path_d (strokes3 ! k)) part (path_length (strokes3 ! k))])))"
  by (rule reveal_order)

subsection \<open>Monotonicity\<close>

text \<open>
  Claim C3. When no stroke has a negative length and \<open>i \<le> j\<close>, the frame \<open>j\<close> is at least as
  drawn as the frame \<open>i\<close>: a stroke drawn in full at \<open>i\<close> is drawn in full at \<open>j\<close>, and the
  revealed fraction of every stroke at \<open>j\<close> is at least the one at \<open>i\<close>. The progress and the
  running sums are the doubles the program computes.
\<close>

theorem ink_never_recedes:
  fixes i j :: nat
  assumes "\<forall>p\<in>set pathProps. nonNegative (path_length p)" and "i \<le> j"
  shows "(fullyDrawn (svg_active (frameSvg paths pathProps (totalLengthOf pathProps) totalFrames opts (Fin (of_nat i)))) k
           \<longrightarrow> fullyDrawn (svg_active (frameSvg paths pathProps (totalLengthOf pathProps) totalFrames opts (Fin (of_nat j)))) k) \<and>
         revealedAt (svg_active (frameSvg paths pathProps (totalLengthOf pathProps) totalFrames opts (Fin (of_nat i)))) k
           \<le> revealedAt (svg_active (frameSvg paths pathProps (totalLengthOf pathProps) totalFrames opts (Fin (of_nat j)))) k"
proof -
  let ?L = "totalLengthOf pathProps"
  let ?ci = "currentTotalProgressAt (Fin (of_nat i)) totalFrames ?L"
  let ?cj = "currentTotalProgressAt (Fin (of_nat j)) totalFrames ?L"
  have L: "nonNegative ?L" using assms(1) by (rule totalLengthOf_nonNegative)
  then have "isNumber ?L" by (simp add: nonNegative_def)
  then have ni: "isNumber ?ci" and nj: "isNumber ?cj" by (simp_all add: isNumber_progress)
  have m: "?ci = NaN \<or> js_le ?ci ?cj" using L assms(2) by (rule progress_mono)
  have r: "revealedAt (activeStrokes ?ci (Fin 0) pathProps) k
        \<le> revealedAt (activeStrokes ?cj (Fin 0) pathProps) k"
    using m ni nj nonNegative_0 assms(1) by (rule activeStrokes_mono)
  have f: "fullyDrawn (activeStrokes ?ci (Fin 0) pathProps) k \<longrightarrow>
           fullyDrawn (activeStrokes ?cj (Fin 0) pathProps) k"
  proof
    assume a: "fullyDrawn (activeStrokes ?ci (Fin 0) pathProps) k"
    then have "?ci \<noteq> NaN" using fullyDrawn_NaN [of "Fin 0" pathProps k] by auto
    with m have "js_le ?ci ?cj" by simp
    then show "fullyDrawn (activeStrokes ?cj (Fin 0) pathProps) k" using a
      by (rule activeStrokes_full_mono)
  qed
  from f r show ?thesis unfolding svg_active_frameSvg by simp
qed

theorem ink_never_recedes_witness:
  "list_all (\<lambda>p. nonNegative (path_length p)) strokes3 \<and> (3::nat) \<le> 4 \<and>
   fullyDrawn (svg_active (frameSvg [] strokes3 (totalLengthOf strokes3) (Fin 7) defaultModeOptions (Fin 4))) 0 \<and>
   revealedAt (svg_active (frameSvg [] strokes3 (totalLengthOf strokes3) (Fin 7) defaultModeOptions (Fin 3))) 1 = 1 / 4 \<and>
   revealedAt (svg_active (frameSvg [] strokes3 (totalLengthOf strokes3) (Fin 7) defaultModeOptions (Fin 3))) 1
     \<le> revealedAt (svg_active (frameSvg [] strokes3 (totalLengthOf strokes3) (Fin 7) defaultModeOptions (Fin 4))) 1"
proof -
  note nn = example_nonNegative
  have le: "(3::nat) \<le> 4" by simp
  have f3: "fullyDrawn (svg_active (frameSvg [] strokes3 (totalLengthOf strokes3) (Fin 7) defaultModeOptions (Fin 3))) 0"
    unfolding example_active_3 by (simp add: fullyDrawn_def)
  have r3: "revealedAt (svg_active (frameSvg [] strokes3 (totalLengthOf strokes3) (Fin 7) defaultModeOptions (Fin 3))) 1 = 1 / 4"
    unfolding example_active_3 by (simp add: revealedAt_def)
  from ink_never_recedes [OF nn le, of "[]" "Fin 7" defaultModeOptions 0] f3
  have c1: "fullyDrawn (svg_active (frameSvg [] strokes3 (totalLengthOf strokes3) (Fin 7) defaultModeOptions (Fin 4))) 0"
    by simp
  from ink_never_recedes [OF nn le, of "[]" "Fin 7" defaultModeOptions 1]
  have c2: "revealedAt (svg_active (frameSvg [] strokes3 (totalLengthOf strokes3) (Fin 7) defaultModeOptions (Fin 3))) 1
     \<le> revealedAt (svg_active (frameSvg [] strokes3 (totalLengthOf strokes3) (Fin 7) defaultModeOptions (Fin 4))) 1"
    by simp
  from nn have "list_all (\<lambda>p. nonNegative (path_length p)) strokes3" by (simp add: list_all_iff)
  with le c1 r3 c2 show ?thesis by blast
qed

subsection \<open>Stroke boundaries\<close>

text \<open>
  Claim C4, as the code has it. When no stroke has a negative length, a stroke drawn in part
  has a dash length that is positive and at most the length of the stroke: the fraction shown
  is never 0, but it can be exactly 1, because the dash length is a rounded difference. When
  the progress equals the running sum of the lengths of the first \<open>k\<close> strokes, as the loop
  computes it, the first \<open>k\<close> strokes at least are drawn in full and no stroke is drawn in
  part.
\<close>

theorem boundary_tie_break:
  assumes "\<forall>p\<in>set pathProps. nonNegative (path_length p)"
  shows "(DashPath dv a b \<in> set (svg_active (frameSvg paths pathProps (totalLengthOf pathProps) totalFrames opts frame))
            \<longrightarrow> js_lt (Fin 0) a \<and> js_le a b) \<and>
         (js_eq (currentTotalProgressAt frame totalFrames (totalLengthOf pathProps))
                (totalLengthOf (take k pathProps)) \<longrightarrow>
            (\<exists>m. min k (length pathProps) \<le> m \<and> m \<le> length pathProps \<and>
               svg_active (frameSvg paths pathProps (totalLengthOf pathProps) totalFrames opts frame) =
                 map (\<lambda>p. Path (path_d p)) (take m pathProps)))"
proof -
  let ?c = "currentTotalProgressAt frame totalFrames (totalLengthOf pathProps)"
  have "nonNegative (totalLengthOf pathProps)" using assms by (rule totalLengthOf_nonNegative)
  then have "isNumber (totalLengthOf pathProps)" by (simp add: nonNegative_def)
  then have c: "isNumber ?c" by (rule isNumber_progress)
  have 1: "DashPath dv a b \<in> set (activeStrokes ?c (Fin 0) pathProps) \<longrightarrow>
           js_lt (Fin 0) a \<and> js_le a b"
    using activeStrokes_dash_bounds [of dv a b ?c "Fin 0" pathProps] assms c by simp
  have 2: "js_eq ?c (totalLengthOf (take k pathProps)) \<longrightarrow>
            (\<exists>m. min k (length pathProps) \<le> m \<and> m \<le> length pathProps \<and>
               activeStrokes ?c (Fin 0) pathProps = map (\<lambda>p. Path (path_d p)) (take m pathProps))"
    using activeStrokes_boundary [of "Fin 0" pathProps ?c k] assms
    by (simp add: totalLengthOf_def)
  from 1 2 show ?thesis unfolding svg_active_frameSvg by simp
qed

theorem boundary_tie_break_witness:
  "list_all (\<lambda>p. nonNegative (path_length p)) strokes3 \<and>
   currentTotalProgressAt (Fin 2) (Fin 7) (totalLengthOf strokes3) = Fin 10 \<and>
   totalLengthOf (take 1 strokes3) = Fin 10 \<and>
   js_eq (currentTotalProgressAt (Fin 2) (Fin 7) (totalLengthOf strokes3))
         (totalLengthOf (take 1 strokes3)) \<and>
   (\<exists>m. min 1 (length strokes3) \<le> m \<and> m \<le> length strokes3 \<and>
      svg_active (frameSvg [] strokes3 (totalLengthOf strokes3) (Fin 7) defaultModeOptions (Fin 2)) =
        map (\<lambda>p. Path (path_d p)) (take m strokes3)) \<and>
   DashPath ''M0,0 L20,0'' (Fin 5) (Fin 20)
     \<in> set (svg_active (frameSvg [] strokes3 (totalLengthOf strokes3) (Fin 7) defaultModeOptions (Fin 3))) \<and>
   js_lt (Fin 0) (Fin 5) \<and> js_le (Fin 5) (Fin 20)"
proof -
  note nn = example_nonNegative
  have p: "currentTotalProgressAt (Fin 2) (Fin 7) (totalLengthOf strokes3) = Fin 10"
    unfolding example_total by (rule example_progress_2)
  have t: "totalLengthOf (take 1 strokes3) = Fin 10"
    by (simp add: totalLengthOf_def strokes3_def js_Fin)
  have e: "js_eq (currentTotalProgressAt (Fin 2) (Fin 7) (totalLengthOf strokes3))
         (totalLengthOf (take 1 strokes3))"
    unfolding p t by (simp add: js_eq_def js_le_Fin)
  have d: "DashPath ''M0,0 L20,0'' (Fin 5) (Fin 20)
     \<in> set (svg_active (frameSvg [] strokes3 (totalLengthOf strokes3) (Fin 7) defaultModeOptions (Fin 3)))"
    unfolding example_active_3 by simp
  from boundary_tie_break [OF nn, of "''M0,0 L20,0''" "Fin 5" "Fin 20" "[]" "Fin 7" defaultModeOptions "Fin 3"] d
  have b: "js_lt (Fin 0) (Fin 5) \<and> js_le (Fin 5) (Fin 20)" by blast
  from boundary_tie_break [OF nn, of _ _ _ "[]" "Fin 7" defaultModeOptions "Fin 2" 1] e
  have m: "\<exists>m. min 1 (length strokes3) \<le> m \<and> m \<le> length strokes3 \<and>
      svg_active (frameSvg [] strokes3 (totalLengthOf strokes3) (Fin 7) defaultModeOptions (Fin 2)) =
        map (\<lambda>p. Path (path_d p)) (take m strokes3)" by blast
  from nn have "list_all (\<lambda>p. nonNegative (path_length p)) strokes3" by (simp add: list_all_iff)
  with p t e m d b show ?thesis by (intro conjI) simp_all
qed

theorem partial_stroke_counterexample:
  "svg_active (frameSvg [] tieStrokes (totalLengthOf tieStrokes) (Fin 6) defaultModeOptions (Fin 3)) =
     [Path ''M0,0 L3.999999999999999,0'', DashPath ''M0,0 L12,0'' (Fin 12) (Fin 12)] \<and>
   path_length (tieStrokes ! 1) = Fin 12 \<and>
   revealed (DashPath ''M0,0 L12,0'' (Fin 12) (Fin 12)) = 1"
proof -
  have 1: "round64 (of_int 4503599627370495 / of_int (2 ^ 50)) = Fin (4503599627370495 / 2 ^ 50)"
    by (subst round64_frac [of _ _ 51]) (simp_all add: sub_exp_def rne_numeral_frac rne_numeral)
  have 2: "round64 (of_int 18014398509481983 / of_int (2 ^ 50)) = Fin 16"
    by (subst round64_frac [of _ _ 49]) (simp_all add: sub_exp_def rne_numeral_frac rne_numeral)
  have 3: "round64 (of_int 13510798882111487 / of_int (2 ^ 50)) = Fin 12"
    by (subst round64_frac [of _ _ 49]) (simp_all add: sub_exp_def rne_numeral_frac rne_numeral)
  have "activeStrokes (Fin (9007199254740991 / 562949953421312)) (Fin 0) tieStrokes =
     [Path ''M0,0 L3.999999999999999,0'', DashPath ''M0,0 L12,0'' (Fin 12) (Fin 12)]"
    using 1 2 3 by (simp add: tieStrokes_def js_add_Fin js_sub_Fin js_le_Fin js_lt_Fin)
  then show ?thesis
    unfolding svg_active_frameSvg tie_total tie_progress by (simp add: tieStrokes_def)
qed

subsection \<open>The progress allocator\<close>




subsection \<open>Relative timing\<close>

text \<open>
  Claim C6. With the timing \<open>'relative'\<close>, the duration is \<open>500 + N \<times> 200\<close> milliseconds for
  \<open>N\<close> strokes (an array of JavaScript has fewer than \<open>2 ^ 32\<close> elements), so 1100 for three
  strokes, and two stroke sets with the same number of strokes get the same duration,
  whatever their lengths.
\<close>

theorem relative_timing:
  "opt_timing opts = ''relative'' \<Longrightarrow>
   (length pathProps < 2 ^ 32 \<longrightarrow>
      animationDuration opts pathProps = Fin (500 + of_nat (length pathProps) * 200)) \<and>
   (length pathProps = 3 \<longrightarrow> animationDuration opts pathProps = Fin 1100) \<and>
   (length pathProps' = length pathProps \<longrightarrow>
      animationDuration opts pathProps' = animationDuration opts pathProps)"
proof (intro conjI impI)
  assume r: "opt_timing opts = ''relative''"
  {
    assume "length pathProps < 2 ^ 32"
    then show "animationDuration opts pathProps = Fin (500 + of_nat (length pathProps) * 200)"
      using r by (simp add: animationDuration_def baseTime_def timePerStroke_def relative_duration)
  next
    assume "length pathProps = 3"
    then show "animationDuration opts pathProps = Fin 1100"
      using r relative_duration [of 3]
      by (simp add: animationDuration_def baseTime_def timePerStroke_def)
  next
    assume "length pathProps' = length pathProps"
    then show "animationDuration opts pathProps' = animationDuration opts pathProps"
      by (simp add: animationDuration_def)
  }
qed

theorem relative_timing_witness:
  "opt_timing relativeOptions = ''relative'' \<and> length strokes3 = 3 \<and> length strokes3 < 2 ^ 32 \<and>
   animationDuration relativeOptions strokes3 = Fin 1100 \<and>
   animationDuration relativeOptions tieStrokes = animationDuration relativeOptions strokes3"
proof -
  have t: "opt_timing relativeOptions = ''relative''"
    by (simp add: relativeOptions_def)
  have n: "length strokes3 = 3" by (simp add: strokes3_def)
  have n': "length tieStrokes = length strokes3" by (simp add: strokes3_def tieStrokes_def)
  have b: "length strokes3 < 2 ^ 32" by (simp add: strokes3_def)
  from relative_timing [OF t, of strokes3 tieStrokes] n n'
  have "animationDuration relativeOptions strokes3 = Fin 1100"
    "animationDuration relativeOptions tieStrokes = animationDuration relativeOptions strokes3"
    by simp_all
  with t n b show ?thesis by (intro conjI)
qed

subsection \<open>Fixed timing\<close>

text \<open>
  Claim C7, as the code has it. With a timing other than \<open>'relative'\<close>, so with \<open>'fixed'\<close>,
  the duration is \<open>options.duration\<close> whatever the strokes are, 2000 in default mode. The
  number of animation frames is \<open>Math.ceil((duration / 1000) * fps)\<close> on doubles, the
  quotient and the product rounded, which can be one more than the ceiling of the exact
  product: for 2200 milliseconds at 25 frames per second the product is 55.00000000000001
  and the number is 56. When it is \<open>n\<close>, \<open>fps\<close> is \<open>m\<close> and every frame is rendered, the
  output holds the \<open>n + m\<close> frames of the indices below \<open>n + m\<close>, each rendered with
  \<open>totalFrames = n\<close>.
\<close>

theorem fixed_timing:
  assumes "opt_timing opts \<noteq> ''relative''"
  shows "animationDuration opts pathProps = opt_duration opts \<and>
         opt_timing defaultModeOptions = ''fixed'' \<and>
         opt_duration defaultModeOptions = Fin 2000 \<and>
         totalFramesOf (animationDuration opts pathProps) (opt_fps opts) =
           js_ceil (js_mul (js_div (opt_duration opts) (Fin 1000)) (opt_fps opts)) \<and>
         (extractPaths (selectPaths svgContent) \<noteq> [] \<and>
          makePathProps getTotalLength (extractPaths (selectPaths svgContent)) = Inr pathProps \<and>
          js_ceil (js_mul (js_div (opt_duration opts) (Fin 1000)) (opt_fps opts)) = Fin (of_nat n) \<and>
          opt_fps opts = Fin (of_nat m) \<and> n + m \<le> 2 ^ 53 \<and>
          (\<forall>i<n + m. sharp (frameRequest (extractPaths (selectPaths svgContent)) pathProps
                 (totalLengthOf pathProps) (Fin (of_nat n)) width height opts (Fin (of_nat i))) = Inr (buf i))
          \<longrightarrow>
          generateGif selectPaths getTotalLength sharp svgContent outputPath width height opts =
            Some (Finished \<lparr>gif_path = outputPath, gif_width = width, gif_height = height,
                            gif_repeat = Fin 0, gif_delay = js_div (Fin 1000) (Fin (of_nat m)),
                            gif_quality = Fin 10, gif_frames = map buf [0..<n + m]\<rparr>))"
proof -
  have d: "animationDuration opts pathProps = opt_duration opts"
    using assms by (simp add: animationDuration_def)
  have t: "totalFramesOf (animationDuration opts pathProps) (opt_fps opts) =
           js_ceil (js_mul (js_div (opt_duration opts) (Fin 1000)) (opt_fps opts))"
    unfolding d by (simp add: totalFramesOf_def)
  have g: "extractPaths (selectPaths svgContent) \<noteq> [] \<and>
          makePathProps getTotalLength (extractPaths (selectPaths svgContent)) = Inr pathProps \<and>
          js_ceil (js_mul (js_div (opt_duration opts) (Fin 1000)) (opt_fps opts)) = Fin (of_nat n) \<and>
          opt_fps opts = Fin (of_nat m) \<and> n + m \<le> 2 ^ 53 \<and>
          (\<forall>i<n + m. sharp (frameRequest (extractPaths (selectPaths svgContent)) pathProps
                 (totalLengthOf pathProps) (Fin (of_nat n)) width height opts (Fin (of_nat i))) = Inr (buf i))
          \<longrightarrow>
          generateGif selectPaths getTotalLength sharp svgContent outputPath width height opts =
            Some (Finished \<lparr>gif_path = outputPath, gif_width = width, gif_height = height,
                            gif_repeat = Fin 0, gif_delay = js_div (Fin 1000) (Fin (of_nat m)),
                            gif_quality = Fin 10, gif_frames = map buf [0..<n + m]\<rparr>)"
  proof (intro impI, elim conjE)
    assume ne: "extractPaths (selectPaths svgContent) \<noteq> []"
      and mp: "makePathProps getTotalLength (extractPaths (selectPaths svgContent)) = Inr pathProps"
      and c: "js_ceil (js_mul (js_div (opt_duration opts) (Fin 1000)) (opt_fps opts)) = Fin (of_nat n)"
      and fps: "opt_fps opts = Fin (of_nat m)" and nm: "n + m \<le> 2 ^ 53"
      and sh: "\<forall>i<n + m. sharp (frameRequest (extractPaths (selectPaths svgContent)) pathProps
                 (totalLengthOf pathProps) (Fin (of_nat n)) width height opts (Fin (of_nat i))) = Inr (buf i)"
    from t c have tf: "totalFramesOf (animationDuration opts pathProps) (opt_fps opts) = Fin (of_nat n)"
      by simp
    from ne mp tf fps nm sh
    show "generateGif selectPaths getTotalLength sharp svgContent outputPath width height opts =
            Some (Finished \<lparr>gif_path = outputPath, gif_width = width, gif_height = height,
                            gif_repeat = Fin 0, gif_delay = js_div (Fin 1000) (Fin (of_nat m)),
                            gif_quality = Fin 10, gif_frames = map buf [0..<n + m]\<rparr>)"
      by (rule generateGif_frames)
  qed
  have o: "opt_timing defaultModeOptions = ''fixed''" "opt_duration defaultModeOptions = Fin 2000"
    by (simp_all add: defaultModeOptions_def)
  from d o t g show ?thesis by (intro conjI)
qed

theorem fixed_timing_witness:
  "opt_timing fastOptions \<noteq> ''relative'' \<and>
   animationDuration fastOptions strokes3 = Fin 2200 \<and>
   js_ceil (js_mul (js_div (Fin 2200) (Fin 1000)) (Fin 25)) = Fin 56 \<and>
   generateGif exampleDoc exampleMeasure exampleSharp ''<svg/>'' ''out.gif'' (Fin 200) (Fin 200) fastOptions =
     Some (Finished \<lparr>gif_path = ''out.gif'', gif_width = Fin 200, gif_height = Fin 200,
             gif_repeat = Fin 0, gif_delay = Fin 40, gif_quality = Fin 10,
             gif_frames = map (\<lambda>i. frameRequest (extractPaths (exampleDoc ''<svg/>'')) strokes3
                                      (totalLengthOf strokes3) (Fin 56) (Fin 200) (Fin 200) fastOptions
                                      (Fin (of_nat i))) [0..<81]\<rparr>)"
proof -
  have t: "opt_timing fastOptions \<noteq> ''relative''"
    by (simp add: fastOptions_def defaultModeOptions_def)
  have d: "opt_duration fastOptions = Fin 2200" and f: "opt_fps fastOptions = Fin (of_nat 25)"
    by (simp_all add: fastOptions_def defaultModeOptions_def)
  have c: "js_ceil (js_mul (js_div (opt_duration fastOptions) (Fin 1000)) (opt_fps fastOptions)) =
           Fin (of_nat 56)"
    using frames_2200 by (simp add: fastOptions_def defaultModeOptions_def)
  have nm: "(56::nat) + 25 \<le> 2 ^ 53" by simp
  have sh: "\<forall>i<56 + 25. exampleSharp (frameRequest (extractPaths (exampleDoc ''<svg/>'')) strokes3
                 (totalLengthOf strokes3) (Fin (of_nat 56)) (Fin 200) (Fin 200) fastOptions (Fin (of_nat i))) =
              Inr (frameRequest (extractPaths (exampleDoc ''<svg/>'')) strokes3
                 (totalLengthOf strokes3) (Fin 56) (Fin 200) (Fin 200) fastOptions (Fin (of_nat i)))"
    by (simp add: exampleSharp_ok)
  note w = fixed_timing [OF t, of strokes3 exampleDoc "''<svg/>''" exampleMeasure 56 25 exampleSharp
      "Fin 200" "Fin 200"
      "\<lambda>i. frameRequest (extractPaths (exampleDoc ''<svg/>'')) strokes3
                 (totalLengthOf strokes3) (Fin 56) (Fin 200) (Fin 200) fastOptions (Fin (of_nat i))"
      "''out.gif''"]
  from w have a: "animationDuration fastOptions strokes3 = opt_duration fastOptions" by blast
  have dl: "js_div (Fin 1000) (Fin (of_nat 25)) = Fin 40" by (simp add: js_Fin)
  from w example_paths_ne [of "''<svg/>''"] example_pathProps [of "''<svg/>''"] c f nm sh
  have "generateGif exampleDoc exampleMeasure exampleSharp ''<svg/>'' ''out.gif'' (Fin 200) (Fin 200) fastOptions =
     Some (Finished \<lparr>gif_path = ''out.gif'', gif_width = Fin 200, gif_height = Fin 200,
             gif_repeat = Fin 0, gif_delay = js_div (Fin 1000) (Fin (of_nat 25)), gif_quality = Fin 10,
             gif_frames = map (\<lambda>i. frameRequest (extractPaths (exampleDoc ''<svg/>'')) strokes3
                                      (totalLengthOf strokes3) (Fin 56) (Fin 200) (Fin 200) fastOptions
                                      (Fin (of_nat i))) [0..<56 + 25]\<rparr>)"
    by blast
  then have g: "generateGif exampleDoc exampleMeasure exampleSharp ''<svg/>'' ''out.gif'' (Fin 200) (Fin 200) fastOptions =
     Some (Finished \<lparr>gif_path = ''out.gif'', gif_width = Fin 200, gif_height = Fin 200,
             gif_repeat = Fin 0, gif_delay = Fin 40, gif_quality = Fin 10,
             gif_frames = map (\<lambda>i. frameRequest (extractPaths (exampleDoc ''<svg/>'')) strokes3
                                      (totalLengthOf strokes3) (Fin 56) (Fin 200) (Fin 200) fastOptions
                                      (Fin (of_nat i))) [0..<81]\<rparr>)"
    unfolding dl by simp
  from a d have "animationDuration fastOptions strokes3 = Fin 2200" by simp
  with t frames_2200 g show ?thesis by (intro conjI)
qed

theorem frame_count_counterexample:
  "opt_timing fastOptions = ''fixed'' \<and> opt_duration fastOptions = Fin 2200 \<and>
   opt_fps fastOptions = Fin 25 \<and>
   \<lceil>(2200 / 1000) * (25::rat)\<rceil> = 55 \<and>
   totalFramesOf (animationDuration fastOptions strokes3) (opt_fps fastOptions) = Fin 56 \<and>
   (\<exists>g. generateGif exampleDoc exampleMeasure exampleSharp ''<svg/>'' ''out.gif'' (Fin 200) (Fin 200)
          fastOptions = Some (Finished g) \<and>
        length (gif_frames g) = 81)"
proof -
  let ?buf = "\<lambda>i. frameRequest (extractPaths (exampleDoc ''<svg/>'')) strokes3 (totalLengthOf strokes3)
                (Fin 56) (Fin 200) (Fin 200) fastOptions (Fin (of_nat i))"
  have o: "opt_timing fastOptions = ''fixed''" "opt_duration fastOptions = Fin 2200"
    "opt_fps fastOptions = Fin 25"
    by (simp_all add: fastOptions_def defaultModeOptions_def)
  have c: "\<lceil>(2200 / 1000) * (25::rat)\<rceil> = 55" by simp
  have t: "totalFramesOf (animationDuration fastOptions strokes3) (opt_fps fastOptions) = Fin 56"
    using frames_2200 o by (simp add: totalFramesOf_def animationDuration_def)
  then have tf: "totalFramesOf (animationDuration fastOptions strokes3) (opt_fps fastOptions) =
                 Fin (of_nat 56)" by simp
  have fps: "opt_fps fastOptions = Fin (of_nat 25)" using o by simp
  have nm: "(56::nat) + 25 \<le> 2 ^ 53" by simp
  have sh: "\<forall>i<56 + 25. exampleSharp (frameRequest (extractPaths (exampleDoc ''<svg/>'')) strokes3
               (totalLengthOf strokes3) (Fin (of_nat 56)) (Fin 200) (Fin 200) fastOptions
               (Fin (of_nat i))) = Inr (?buf i)"
    by (simp add: exampleSharp_ok)
  from generateGif_frames [where selectPaths = exampleDoc and svgContent = "''<svg/>''"
      and getTotalLength = exampleMeasure and sharp = exampleSharp and buf = ?buf
      and outputPath = "''out.gif''",
      OF example_paths_ne example_pathProps tf fps nm sh]
  have "\<exists>g. generateGif exampleDoc exampleMeasure exampleSharp ''<svg/>'' ''out.gif'' (Fin 200) (Fin 200)
          fastOptions = Some (Finished g) \<and> length (gif_frames g) = 81"
    by simp
  with o c t show ?thesis by (intro conjI)
qed

subsection \<open>Hold frames\<close>

text \<open>
  Claim C8, as the code has it. When the stroke set is not empty, every path is measured,
  \<open>totalFrames\<close> and \<open>fps\<close> are integers \<open>n\<close> and \<open>m\<close> with \<open>n + m \<le> 2 ^ 53\<close> and the
  rasteriser accepts every frame, the output has \<open>n + m\<close> frames; each of the last \<open>m\<close> is the
  frame at index \<open>n\<close>, rendered at the progress \<open>totalLength\<close>, and it shows every stroke in
  full when no length is negative. This is not so for every render: a duration that is not a
  number, as \<open>--duration abc\<close> gives, leaves the output without any frame, whatever \<open>fps\<close>
  is.
\<close>

theorem hold_frames:
  assumes ne: "extractPaths (selectPaths svgContent) \<noteq> []"
    and mp: "makePathProps getTotalLength (extractPaths (selectPaths svgContent)) = Inr pathProps"
    and tf: "totalFramesOf (animationDuration opts pathProps) (opt_fps opts) = Fin (of_nat n)"
    and fps: "opt_fps opts = Fin (of_nat m)"
    and nm: "n + m \<le> 2 ^ 53"
    and sh: "\<forall>i<n + m. sharp (frameRequest (extractPaths (selectPaths svgContent)) pathProps
               (totalLengthOf pathProps) (Fin (of_nat n)) width height opts (Fin (of_nat i))) = Inr (buf i)"
  shows "\<exists>g. generateGif selectPaths getTotalLength sharp svgContent outputPath width height opts =
               Some (Finished g) \<and>
             length (gif_frames g) = n + m \<and>
             (\<forall>i. n \<le> i \<and> i < n + m \<longrightarrow>
                gif_frames g ! i = buf i \<and> gif_frames g ! i = gif_frames g ! n \<and>
                sharp (frameRequest (extractPaths (selectPaths svgContent)) pathProps
                  (totalLengthOf pathProps) (Fin (of_nat n)) width height opts (Fin (of_nat n))) = Inr (buf i) \<and>
                currentTotalProgressAt (Fin (of_nat i)) (Fin (of_nat n)) (totalLengthOf pathProps) =
                  totalLengthOf pathProps \<and>
                ((\<forall>p\<in>set pathProps. nonNegative (path_length p)) \<longrightarrow>
                   svg_active (frameSvg (extractPaths (selectPaths svgContent)) pathProps
                     (totalLengthOf pathProps) (Fin (of_nat n)) opts (Fin (of_nat i))) =
                   map (\<lambda>p. Path (path_d p)) pathProps))"
proof -
  let ?g = "\<lparr>gif_path = outputPath, gif_width = width, gif_height = height,
             gif_repeat = Fin 0, gif_delay = js_div (Fin 1000) (Fin (of_nat m)),
             gif_quality = Fin 10, gif_frames = map buf [0..<n + m]\<rparr>"
  let ?req = "\<lambda>i. frameRequest (extractPaths (selectPaths svgContent)) pathProps
               (totalLengthOf pathProps) (Fin (of_nat n)) width height opts (Fin (of_nat i))"
  have g: "generateGif selectPaths getTotalLength sharp svgContent outputPath width height opts =
             Some (Finished ?g)"
    using ne mp tf fps nm sh by (rule generateGif_frames)
  have l: "length (gif_frames ?g) = n + m" by simp
  have h: "\<forall>i. n \<le> i \<and> i < n + m \<longrightarrow>
                gif_frames ?g ! i = buf i \<and> gif_frames ?g ! i = gif_frames ?g ! n \<and>
                sharp (?req n) = Inr (buf i) \<and>
                currentTotalProgressAt (Fin (of_nat i)) (Fin (of_nat n)) (totalLengthOf pathProps) =
                  totalLengthOf pathProps \<and>
                ((\<forall>p\<in>set pathProps. nonNegative (path_length p)) \<longrightarrow>
                   svg_active (frameSvg (extractPaths (selectPaths svgContent)) pathProps
                     (totalLengthOf pathProps) (Fin (of_nat n)) opts (Fin (of_nat i))) =
                   map (\<lambda>p. Path (path_d p)) pathProps)"
  proof (intro allI impI, elim conjE)
    fix i assume ni: "n \<le> i" and im: "i < n + m"
    then have nn: "n < n + m" by simp
    have ge: "js_ge (Fin (of_nat i)) (Fin (of_nat n))"
      using ni by (simp add: js_ge_def js_le_of_nat)
    from frameRequest_hold [OF ge]
    have r: "?req i = ?req n"
      and p: "currentTotalProgressAt (Fin (of_nat i)) (Fin (of_nat n)) (totalLengthOf pathProps) =
                  totalLengthOf pathProps"
      by simp_all
    from sh im have si: "sharp (?req i) = Inr (buf i)" by simp
    from sh nn have sn: "sharp (?req n) = Inr (buf n)" by simp
    from si sn r have e: "buf i = buf n" by simp
    have 1: "gif_frames ?g ! i = buf i" using im by simp
    have 2: "gif_frames ?g ! n = buf n" using nn by simp
    have a: "(\<forall>p\<in>set pathProps. nonNegative (path_length p)) \<longrightarrow>
                   svg_active (frameSvg (extractPaths (selectPaths svgContent)) pathProps
                     (totalLengthOf pathProps) (Fin (of_nat n)) opts (Fin (of_nat i))) =
                   map (\<lambda>p. Path (path_d p)) pathProps"
      using ge by (auto intro: hold_all)
    from 1 2 e sn p a
    show "gif_frames ?g ! i = buf i \<and> gif_frames ?g ! i = gif_frames ?g ! n \<and>
                sharp (?req n) = Inr (buf i) \<and>
                currentTotalProgressAt (Fin (of_nat i)) (Fin (of_nat n)) (totalLengthOf pathProps) =
                  totalLengthOf pathProps \<and>
                ((\<forall>p\<in>set pathProps. nonNegative (path_length p)) \<longrightarrow>
                   svg_active (frameSvg (extractPaths (selectPaths svgContent)) pathProps
                     (totalLengthOf pathProps) (Fin (of_nat n)) opts (Fin (of_nat i))) =
                   map (\<lambda>p. Path (path_d p)) pathProps)"
      by simp
  qed
  from g l h show ?thesis by (intro exI [of _ ?g] conjI)
qed

theorem hold_frames_witness:
  "extractPaths (exampleDoc ''<svg/>'') \<noteq> [] \<and>
   makePathProps exampleMeasure (extractPaths (exampleDoc ''<svg/>'')) = Inr strokes3 \<and>
   totalFramesOf (animationDuration defaultModeOptions strokes3) (opt_fps defaultModeOptions) = Fin 40 \<and>
   opt_fps defaultModeOptions = Fin 20 \<and>
   list_all (\<lambda>p. nonNegative (path_length p)) strokes3 \<and>
   (\<exists>g. generateGif exampleDoc exampleMeasure exampleSharp ''<svg/>'' ''out.gif'' (Fin 200) (Fin 200)
           defaultModeOptions = Some (Finished g) \<and>
         length (gif_frames g) = 60 \<and>
         gif_frames g ! 59 = gif_frames g ! 40 \<and>
         svg_active (fr_svg (gif_frames g ! 59)) =
           [Path ''M0,0 L10,0'', Path ''M0,0 L20,0'', Path ''M0,0 L5,0''])"
proof -
  let ?paths = "extractPaths (exampleDoc ''<svg/>'')"
  let ?buf = "\<lambda>i. frameRequest ?paths strokes3 (totalLengthOf strokes3) (Fin 40) (Fin 200) (Fin 200)
                    defaultModeOptions (Fin (of_nat i))"
  have f: "opt_fps defaultModeOptions = Fin (of_nat 20)" by (simp add: defaultModeOptions_def)
  have t: "totalFramesOf (animationDuration defaultModeOptions strokes3) (opt_fps defaultModeOptions) =
           Fin (of_nat 40)"
    using frames_2000 by (simp add: animationDuration_def defaultModeOptions_def)
  have nm: "(40::nat) + 20 \<le> 2 ^ 53" by simp
  have sh: "\<forall>i<40 + 20. exampleSharp (frameRequest ?paths strokes3 (totalLengthOf strokes3)
               (Fin (of_nat 40)) (Fin 200) (Fin 200) defaultModeOptions (Fin (of_nat i))) = Inr (?buf i)"
    by (simp add: exampleSharp_ok)
  from hold_frames [where selectPaths = exampleDoc and svgContent = "''<svg/>''"
      and getTotalLength = exampleMeasure and sharp = exampleSharp and buf = ?buf
      and outputPath = "''out.gif''",
      OF example_paths_ne example_pathProps t f nm sh]
  obtain g where g: "generateGif exampleDoc exampleMeasure exampleSharp ''<svg/>'' ''out.gif''
           (Fin 200) (Fin 200) defaultModeOptions = Some (Finished g)"
    and l: "length (gif_frames g) = 40 + 20"
    and h: "\<forall>i. 40 \<le> i \<and> i < 40 + 20 \<longrightarrow>
                gif_frames g ! i = ?buf i \<and> gif_frames g ! i = gif_frames g ! 40 \<and>
                exampleSharp (frameRequest ?paths strokes3 (totalLengthOf strokes3)
                  (Fin (of_nat 40)) (Fin 200) (Fin 200) defaultModeOptions (Fin (of_nat 40))) = Inr (?buf i) \<and>
                currentTotalProgressAt (Fin (of_nat i)) (Fin (of_nat 40)) (totalLengthOf strokes3) =
                  totalLengthOf strokes3 \<and>
                ((\<forall>p\<in>set strokes3. nonNegative (path_length p)) \<longrightarrow>
                   svg_active (frameSvg ?paths strokes3
                     (totalLengthOf strokes3) (Fin (of_nat 40)) defaultModeOptions (Fin (of_nat i))) =
                   map (\<lambda>p. Path (path_d p)) strokes3)"
    by blast
  have r: "(40::nat) \<le> 59 \<and> (59::nat) < 40 + 20" by simp
  from h r have b: "gif_frames g ! 59 = ?buf 59" and e: "gif_frames g ! 59 = gif_frames g ! 40"
    and a: "(\<forall>p\<in>set strokes3. nonNegative (path_length p)) \<longrightarrow>
                   svg_active (frameSvg ?paths strokes3
                     (totalLengthOf strokes3) (Fin (of_nat 40)) defaultModeOptions (Fin (of_nat 59))) =
                   map (\<lambda>p. Path (path_d p)) strokes3"
    by blast+
  from a example_nonNegative
  have "svg_active (frameSvg ?paths strokes3
                     (totalLengthOf strokes3) (Fin (of_nat 40)) defaultModeOptions (Fin (of_nat 59))) =
                   map (\<lambda>p. Path (path_d p)) strokes3" by blast
  then have s: "svg_active (fr_svg (gif_frames g ! 59)) =
           [Path ''M0,0 L10,0'', Path ''M0,0 L20,0'', Path ''M0,0 L5,0'']"
    unfolding b by (simp add: frameRequest_def strokes3_def)
  from l have l': "length (gif_frames g) = 60" by simp
  have ex: "\<exists>g. generateGif exampleDoc exampleMeasure exampleSharp ''<svg/>'' ''out.gif'' (Fin 200) (Fin 200)
           defaultModeOptions = Some (Finished g) \<and>
         length (gif_frames g) = 60 \<and>
         gif_frames g ! 59 = gif_frames g ! 40 \<and>
         svg_active (fr_svg (gif_frames g ! 59)) =
           [Path ''M0,0 L10,0'', Path ''M0,0 L20,0'', Path ''M0,0 L5,0'']"
    by (intro exI [of _ g] conjI) (fact g l' e s)+
  have t': "totalFramesOf (animationDuration defaultModeOptions strokes3) (opt_fps defaultModeOptions) = Fin 40"
    using t by simp
  have f': "opt_fps defaultModeOptions = Fin 20" using f by simp
  from example_nonNegative have n: "list_all (\<lambda>p. nonNegative (path_length p)) strokes3"
    by (simp add: list_all_iff)
  from example_paths_ne [of "''<svg/>''"] example_pathProps [of "''<svg/>''"] t' f' n ex
  show ?thesis by (intro conjI)
qed

theorem hold_frames_counterexample:
  "parseInt ''abc'' = NaN \<and>
   opt_fps (defaultModeOptions\<lparr>opt_duration := NaN\<rparr>) = Fin 20 \<and>
   generateGif exampleDoc exampleMeasure exampleSharp ''<svg/>'' ''out.gif'' (Fin 200) (Fin 200)
     (defaultModeOptions\<lparr>opt_duration := NaN\<rparr>) =
   Some (Finished \<lparr>gif_path = ''out.gif'', gif_width = Fin 200, gif_height = Fin 200,
           gif_repeat = Fin 0, gif_delay = Fin 50, gif_quality = Fin 10, gif_frames = []\<rparr>)"
proof -
  have p: "parseInt ''abc'' = NaN"
    by (simp add: parseInt_def isWhiteSpace_def digitValue_def)
  have f: "opt_fps (defaultModeOptions\<lparr>opt_duration := NaN\<rparr>) = Fin 20"
    by (simp add: defaultModeOptions_def)
  have nb: "\<not> js_lt (Fin 0)
      (js_add (totalFramesOf (animationDuration (defaultModeOptions\<lparr>opt_duration := NaN\<rparr>) strokes3)
                 (opt_fps (defaultModeOptions\<lparr>opt_duration := NaN\<rparr>)))
              (opt_fps (defaultModeOptions\<lparr>opt_duration := NaN\<rparr>)))"
    by (simp add: animationDuration_def defaultModeOptions_def totalFramesOf_def js_div_def
        js_mul_def js_add_def js_lt_def)
  have d: "js_div (Fin 1000) (Fin 20) = Fin 50" by (simp add: js_Fin)
  from generateGif_no_frames [where selectPaths = exampleDoc and svgContent = "''<svg/>''"
      and getTotalLength = exampleMeasure and sharp = exampleSharp
      and outputPath = "''out.gif''" and width = "Fin 200" and height = "Fin 200",
      OF example_paths_ne example_pathProps nb]
  have "generateGif exampleDoc exampleMeasure exampleSharp ''<svg/>'' ''out.gif'' (Fin 200) (Fin 200)
     (defaultModeOptions\<lparr>opt_duration := NaN\<rparr>) =
   Some (Finished \<lparr>gif_path = ''out.gif'', gif_width = Fin 200, gif_height = Fin 200,
           gif_repeat = Fin 0, gif_delay = Fin 50, gif_quality = Fin 10, gif_frames = []\<rparr>)"
    unfolding f d .
  with p f show ?thesis by (intro conjI)
qed

subsection \<open>Validation of the configuration\<close>




subsection \<open>Idempotence of \<open>preprocessSvg\<close>\<close>

text \<open>
  Claim C10. \<open>preprocessSvg\<close> is idempotent. When its result contains \<open><svg\<close>, the result
  starts with it and contains \<open>xmlns:kvg\<close>.
\<close>

theorem preprocessSvg_idempotent:
  "preprocessSvg (preprocessSvg s) = preprocessSvg s \<and>
   (includesStr (preprocessSvg s) ''<svg'' \<longrightarrow>
      indexOf (preprocessSvg s) ''<svg'' = 0 \<and> prefix ''<svg'' (preprocessSvg s) \<and>
      includesStr (preprocessSvg s) ''xmlns:kvg'')"
proof (intro conjI impI)
  show "preprocessSvg (preprocessSvg s) = preprocessSvg s" by (rule preprocessSvg_twice)
next
  assume r: "includesStr (preprocessSvg s) ''<svg''"
  have "includesStr s ''<svg''"
  proof (rule ccontr)
    assume n: "\<not> includesStr s ''<svg''"
    then have "preprocessSvg s = s" by (rule preprocessSvg_no_svg)
    with r n show False by simp
  qed
  then have w: "prefix ''<svg'' (preprocessSvg s) \<and> includesStr (preprocessSvg s) ''xmlns:kvg''"
    by (rule preprocessSvg_with_svg)
  then show "prefix ''<svg'' (preprocessSvg s)" and "includesStr (preprocessSvg s) ''xmlns:kvg''"
    by simp_all
  from w show "indexOf (preprocessSvg s) ''<svg'' = 0" by (simp add: indexOf_prefix)
qed

theorem preprocessSvg_idempotent_witness:
  \<open>preprocessSvg exampleSvg = ''<svg xmlns:kvg="http://kanjivg.tagaini.net" a="1"/>'' \<and>
   includesStr (preprocessSvg exampleSvg) ''<svg'' \<and>
   preprocessSvg (preprocessSvg exampleSvg) = preprocessSvg exampleSvg \<and>
   indexOf (preprocessSvg exampleSvg) ''<svg'' = 0 \<and>
   includesStr (preprocessSvg exampleSvg) ''xmlns:kvg''\<close>
proof -
  have v: \<open>preprocessSvg exampleSvg = ''<svg xmlns:kvg="http://kanjivg.tagaini.net" a="1"/>''\<close>
    by (simp add: preprocessSvg_def substring_def exampleSvg_def)
  have i: "includesStr (preprocessSvg exampleSvg) ''<svg''"
    unfolding v by simp
  from preprocessSvg_idempotent [of exampleSvg] i
  have "preprocessSvg (preprocessSvg exampleSvg) = preprocessSvg exampleSvg"
    "indexOf (preprocessSvg exampleSvg) ''<svg'' = 0"
    "includesStr (preprocessSvg exampleSvg) ''xmlns:kvg''"
    by simp_all
  with v i show ?thesis by (intro conjI)
qed

end
